theory Spec2Isabelle
  imports Main "HOL-Library.List_Lexorder" "HOL-Library.Multiset"
begin

section \<open>Text, lines and the function-signature pattern\<close>

text \<open>
  The gate reads every file with \<^verbatim>\<open>path.read_text(encoding="utf-8")\<close>, so a text is a
  Python \<^verbatim>\<open>str\<close>: a sequence of Unicode code points. A code point is modelled by its
  number, a text by the list of its code points. \<open>str\<close> turns an ASCII literal into such a
  list. A file is given by the text \<^verbatim>\<open>read_text\<close> returns for it: reading and
  decoding are taken to succeed.
\<close>

type_synonym pychar = nat
type_synonym pystr = "pychar list"

definition str :: "string \<Rightarrow> pystr" where
  "str s = map of_char s"

text \<open>
  The characters Python's \<^verbatim>\<open>\s\<close> accepts in a \<^verbatim>\<open>str\<close> pattern (those of
  \<^verbatim>\<open>str.isspace\<close>), and the class \<^verbatim>\<open>[A-Za-z0-9_]\<close>.
\<close>

definition is_space :: "pychar \<Rightarrow> bool" where
  "is_space c \<longleftrightarrow>
     (9 \<le> c \<and> c \<le> 13) \<or> (28 \<le> c \<and> c \<le> 32) \<or> c = 133 \<or> c = 160 \<or> c = 5760 \<or>
     (8192 \<le> c \<and> c \<le> 8202) \<or> c = 8232 \<or> c = 8233 \<or> c = 8239 \<or> c = 8287 \<or> c = 12288"

definition is_name_char :: "pychar \<Rightarrow> bool" where
  "is_name_char c \<longleftrightarrow>
     (65 \<le> c \<and> c \<le> 90) \<or> (97 \<le> c \<and> c \<le> 122) \<or> (48 \<le> c \<and> c \<le> 57) \<or> c = 95"

text \<open>\<open>match_lit kw s\<close> strips the literal \<open>kw\<close> from the front of \<open>s\<close>.\<close>

fun match_lit :: "pystr \<Rightarrow> pystr \<Rightarrow> pystr option" where
  "match_lit [] s = Some s"
| "match_lit (c # cs) [] = None"
| "match_lit (c # cs) (d # ds) = (if c = d then match_lit cs ds else None)"

text \<open>\<^verbatim>\<open>\s+\<close>: at least one white-space character, then as many as there are.\<close>

definition spaces1 :: "pystr \<Rightarrow> pystr option" where
  "spaces1 s = (case s of [] \<Rightarrow> None
                | c # cs \<Rightarrow> if is_space c then Some (dropWhile is_space cs) else None)"

text \<open>An optional group \<^verbatim>\<open>(kw\s+)?\<close>.\<close>

definition opt_kw :: "pystr \<Rightarrow> pystr \<Rightarrow> pystr" where
  "opt_kw kw s = (case match_lit kw s of None \<Rightarrow> s
                  | Some r \<Rightarrow> (case spaces1 r of None \<Rightarrow> s | Some r' \<Rightarrow> r'))"

text \<open>
  \<^verbatim>\<open>PAT_FN = re.compile(r"^\s*(pub\s+)?(async\s+)?fn\s+([A-Za-z0-9_]+)\s*\(")\<close> with
  \<^verbatim>\<open>PAT_FN.match(line)\<close>: the result is group 3, the function's name, or \<open>None\<close>. No
  alternative of the pattern can start where another one has stopped, so the greedy
  left-to-right match below is the only one there is.
\<close>

definition PAT_FN :: "pystr \<Rightarrow> pystr option" where
  "PAT_FN line =
     (let s0 = dropWhile is_space line;
          s1 = opt_kw (str ''pub'') s0;
          s2 = opt_kw (str ''async'') s1
      in case match_lit (str ''fn'') s2 of None \<Rightarrow> None
         | Some s3 \<Rightarrow>
             (case spaces1 s3 of None \<Rightarrow> None
              | Some s4 \<Rightarrow>
                  (let name = takeWhile is_name_char s4;
                       s5 = dropWhile is_space (dropWhile is_name_char s4)
                   in if name = [] then None
                      else (case s5 of [] \<Rightarrow> None
                            | c # _ \<Rightarrow> if c = 40 then Some name else None))))"

text \<open>
  \<^verbatim>\<open>str.splitlines()\<close>: a line ends at a line feed, a carriage return (with the line
  feed that follows it, if any), a vertical tab, a form feed, a file, group or record
  separator, a next-line character, or a Unicode line or paragraph separator. The line
  ends are not part of the lines, and a text that ends in a line end has no empty last
  line.
\<close>

definition is_linebreak :: "pychar \<Rightarrow> bool" where
  "is_linebreak c \<longleftrightarrow>
     (10 \<le> c \<and> c \<le> 13) \<or> (28 \<le> c \<and> c \<le> 30) \<or> c = 133 \<or> c = 8232 \<or> c = 8233"

fun splitlines_from :: "pystr \<Rightarrow> pystr \<Rightarrow> pystr list" where
  "splitlines_from cur [] = (if cur = [] then [] else [cur])"
| "splitlines_from cur [c] = (if is_linebreak c then [cur] else [cur @ [c]])"
| "splitlines_from cur (c # d # ds) =
     (if c = 13 \<and> d = 10 then cur # splitlines_from [] ds
      else if is_linebreak c then cur # splitlines_from [] (d # ds)
      else splitlines_from (cur @ [c]) (d # ds))"

definition splitlines :: "pystr \<Rightarrow> pystr list" where
  "splitlines text = splitlines_from [] text"

section \<open>The brace-depth scan of one function body\<close>

text \<open>
  The body of \<^verbatim>\<open>for ch in lines[j]\<close>: an opening brace raises the depth and sets
  \<open>opened\<close>; a closing brace lowers the depth once a brace has been opened. The state is
  the pair \<open>(opened, depth)\<close>; the depth is a Python integer and may become negative.
\<close>

fun brace_step :: "bool \<times> int \<Rightarrow> pychar \<Rightarrow> bool \<times> int" where
  "brace_step (opened, depth) ch =
     (if ch = 123 then (True, depth + 1)
      else if ch = 125 \<and> opened then (opened, depth - 1)
      else (opened, depth))"

definition scan_line :: "pystr \<Rightarrow> bool \<times> int \<Rightarrow> bool \<times> int" where
  "scan_line line st = foldl brace_step st line"

text \<open>
  The inner loop \<^verbatim>\<open>while j < len(lines)\<close> of \<^verbatim>\<open>function_violations\<close>: every
  character of line \<open>j\<close> is scanned, and only then \<^verbatim>\<open>opened and depth == 0\<close> is
  tested. \<open>Some j\<close> is the \<^verbatim>\<open>break\<close> at line \<open>j\<close>, \<open>None\<close> the loop's
  \<^verbatim>\<open>else\<close> branch, taken when the lines run out.
\<close>

function close_line :: "pystr list \<Rightarrow> nat \<Rightarrow> bool \<times> int \<Rightarrow> nat option" where
  "close_line lines j st =
     (if j < length lines then
        (let st' = scan_line (lines ! j) st
         in if fst st' \<and> snd st' = 0 then Some j else close_line lines (j + 1) st')
      else None)"
  by pat_completeness auto
termination
  by (relation "measure (\<lambda>(lines, j, st). length lines - j)") auto

declare close_line.simps [simp del]

text \<open>
  The test \<^verbatim>\<open>opened and depth == 0\<close>, and the state the scan is in once every
  character of the lines \<open>i\<close> to \<open>j\<close> has been read, starting from the state \<open>st\<close>.
\<close>

definition closed :: "bool \<times> int \<Rightarrow> bool" where
  "closed st \<longleftrightarrow> fst st \<and> snd st = 0"

definition state_after :: "pystr list \<Rightarrow> nat \<Rightarrow> nat \<Rightarrow> bool \<times> int \<Rightarrow> bool \<times> int" where
  "state_after lines i j st = foldl brace_step st (concat (take (j + 1 - i) (drop i lines)))"

section \<open>The function extractor and the violation lists\<close>

text \<open>
  A file violation is the pair \<^verbatim>\<open>(str(path), len(lines))\<close>, a function violation the
  tuple \<^verbatim>\<open>(str(path), name, length, i + 1, j + 1)\<close>. Paths are values of any linearly
  ordered type here; the type of \<^verbatim>\<open>pathlib.Path\<close> values and the order in which
  \<^verbatim>\<open>sorted\<close> puts them are given below. A violation holds the path itself where the
  source holds its string. Line numbers and
  line counts are natural numbers: the cursors start at 0 and only grow.
\<close>

type_synonym 'p file_violation = "'p \<times> nat"
type_synonym 'p fn_violation = "'p \<times> pystr \<times> nat \<times> nat \<times> nat"

text \<open>
  One pass through the body of the outer loop \<^verbatim>\<open>while i < len(lines)\<close>, from the cursor
  \<open>i\<close> and the violations collected so far to the next cursor and list.
\<close>

definition scan_step ::
  "'p \<Rightarrow> pystr list \<Rightarrow> int \<Rightarrow> pystr set \<Rightarrow> nat \<times> 'p fn_violation list \<Rightarrow> nat \<times> 'p fn_violation list"
where
  "scan_step path lines max_lines allow = (\<lambda>(i, violations).
     case PAT_FN (lines ! i) of
       None \<Rightarrow> (i + 1, violations)
     | Some name \<Rightarrow>
         (case close_line lines i (False, 0) of
            None \<Rightarrow> (i + 1, violations)
          | Some j \<Rightarrow>
              (let len = (j - i) + 1
               in (j + 1,
                   if int len > max_lines \<and> name \<notin> allow
                   then violations @ [(path, name, len, i + 1, j + 1)]
                   else violations))))"

lemma close_line_ge: "close_line lines j st = Some k \<Longrightarrow> j \<le> k"
proof (induction lines j st rule: close_line.induct)
  case (1 lines j st)
  show ?case
  proof (cases "j < length lines")
    case False
    with "1.prems" show ?thesis by (simp add: close_line.simps)
  next
    case True
    let ?st = "scan_line (lines ! j) st"
    show ?thesis
    proof (cases "fst ?st \<and> snd ?st = 0")
      case True
      with \<open>j < length lines\<close> "1.prems" show ?thesis
        by (simp add: close_line.simps [of lines j])
    next
      case False
      with \<open>j < length lines\<close> "1.prems" have "close_line lines (j + 1) ?st = Some k"
        by (simp add: close_line.simps [of lines j] Let_def)
      with "1.IH" [OF \<open>j < length lines\<close> refl False] show ?thesis by simp
    qed
  qed
qed

lemma close_line_less: "close_line lines j st = Some k \<Longrightarrow> k < length lines"
proof (induction lines j st rule: close_line.induct)
  case (1 lines j st)
  show ?case
  proof (cases "j < length lines")
    case False
    with "1.prems" show ?thesis by (simp add: close_line.simps)
  next
    case True
    let ?st = "scan_line (lines ! j) st"
    show ?thesis
    proof (cases "fst ?st \<and> snd ?st = 0")
      case True
      with \<open>j < length lines\<close> "1.prems" show ?thesis
        by (simp add: close_line.simps [of lines j])
    next
      case False
      with \<open>j < length lines\<close> "1.prems" have "close_line lines (j + 1) ?st = Some k"
        by (simp add: close_line.simps [of lines j] Let_def)
      with "1.IH" [OF \<open>j < length lines\<close> refl False] show ?thesis by simp
    qed
  qed
qed

lemma scan_step_cursor: "i < fst (scan_step path lines max_lines allow (i, violations))"
  by (auto simp: scan_step_def Let_def split: option.splits dest: close_line_ge)

text \<open>The outer loop, from a cursor and a list of violations to the list at its exit.\<close>

function scan_file ::
  "'p \<Rightarrow> pystr list \<Rightarrow> int \<Rightarrow> pystr set \<Rightarrow> nat \<times> 'p fn_violation list \<Rightarrow> 'p fn_violation list"
where
  "scan_file path lines max_lines allow (i, violations) =
     (if i < length lines
      then scan_file path lines max_lines allow (scan_step path lines max_lines allow (i, violations))
      else violations)"
  by pat_completeness auto
termination
proof (relation "measure (\<lambda>(path, lines, max_lines, allow, st). length lines - fst st)")
  show "wf (measure (\<lambda>(path, lines, max_lines, allow, st). length lines - fst st))"
    by simp
next
  fix path :: 'p and lines :: "pystr list" and max_lines :: int and allow :: "pystr set"
    and i :: nat and violations :: "'p fn_violation list"
  assume "i < length lines"
  with scan_step_cursor [of i path lines max_lines allow violations]
  show "((path, lines, max_lines, allow, scan_step path lines max_lines allow (i, violations)),
         (path, lines, max_lines, allow, i, violations))
        \<in> measure (\<lambda>(path, lines, max_lines, allow, st). length lines - fst st)"
    by simp
qed

declare scan_file.simps [simp del]

text \<open>
  \<^verbatim>\<open>file_violations\<close> and \<^verbatim>\<open>function_violations\<close>. The argument \<open>files\<close> is what
  \<^verbatim>\<open>src_root.rglob("*.rs")\<close> enumerates, in the order of the file system, each path
  with the text \<^verbatim>\<open>read_text\<close> returns for it.
\<close>

definition file_violations :: "('p::linorder \<times> pystr) list \<Rightarrow> int \<Rightarrow> 'p file_violation list" where
  "file_violations files max_lines =
     foldl (\<lambda>violations (path, text).
              (let lines = splitlines text
               in if int (length lines) > max_lines
                  then violations @ [(path, length lines)]
                  else violations))
       [] (sort_key fst files)"

definition function_violations ::
  "('p::linorder \<times> pystr) list \<Rightarrow> int \<Rightarrow> pystr set \<Rightarrow> 'p fn_violation list"
where
  "function_violations files max_lines allow =
     foldl (\<lambda>violations (path, text).
              scan_file path (splitlines text) max_lines allow (0, violations))
       [] (sort_key fst files)"

text \<open>
  \<^verbatim>\<open>text.count(sub)\<close> for a non-empty \<open>sub\<close>: the occurrences are counted from the left
  and do not overlap.
\<close>

function count_sub :: "pystr \<Rightarrow> pystr \<Rightarrow> nat" where
  "count_sub sub [] = 0"
| "count_sub sub (c # cs) =
     (if take (length sub) (c # cs) = sub
      then 1 + count_sub sub (drop (length sub - 1) cs)
      else count_sub sub cs)"
  by pat_completeness auto
termination
  by (relation "measure (\<lambda>(sub, text). length text)") auto

definition error_pattern_count :: "('p::linorder \<times> pystr) list \<Rightarrow> nat" where
  "error_pattern_count files =
     foldl (\<lambda>count (path, text). count + count_sub (str ''eprintln!('') text)
       0 (sort_key fst files)"

text \<open>
  The components of a function violation, and the spans of a file: with the limit 0 and
  no name exempt, every body the scan closes is longer than the limit, so the scan lists
  every span it closes.
\<close>

definition v_path :: "'p fn_violation \<Rightarrow> 'p" where
  "v_path v = fst v"

definition v_name :: "'p fn_violation \<Rightarrow> pystr" where
  "v_name v = fst (snd v)"

definition v_length :: "'p fn_violation \<Rightarrow> nat" where
  "v_length v = fst (snd (snd v))"

definition v_start :: "'p fn_violation \<Rightarrow> nat" where
  "v_start v = fst (snd (snd (snd v)))"

definition v_end :: "'p fn_violation \<Rightarrow> nat" where
  "v_end v = snd (snd (snd (snd v)))"

definition file_spans :: "'p \<Rightarrow> pystr list \<Rightarrow> 'p fn_violation list" where
  "file_spans path lines = scan_file path lines 0 {} (0, [])"

section \<open>Paths and their order\<close>

text \<open>
  A \<^verbatim>\<open>pathlib.Path\<close> on a POSIX system is the sequence of its components
  (\<^verbatim>\<open>path.parts\<close>), and \<^verbatim>\<open>sorted\<close> compares two paths by these sequences: component
  by component, each component as a string, code point by code point, a proper prefix
  coming before what extends it. \<^verbatim>\<open>str(path)\<close>, which the violations report, joins
  the components with \<^verbatim>\<open>/\<close> after the root, if the path has one. The functions
  above are written for any linearly ordered type of paths; \<open>path\<close> is the type the
  gate runs on, and its order, that of lists of lists of code points, is \<open>parts_less\<close>.
  \<open>str_less\<close> is the order of Python strings, which is also the lexicographic order of
  the path strings.
\<close>

type_synonym path = "pystr list"

fun str_less :: "pystr \<Rightarrow> pystr \<Rightarrow> bool" where
  "str_less [] [] = False"
| "str_less [] (y # ys) = True"
| "str_less (x # xs) [] = False"
| "str_less (x # xs) (y # ys) = (x < y \<or> (x = y \<and> str_less xs ys))"

fun parts_less :: "path \<Rightarrow> path \<Rightarrow> bool" where
  "parts_less [] [] = False"
| "parts_less [] (q # qs) = True"
| "parts_less (p # ps) [] = False"
| "parts_less (p # ps) (q # qs) = (str_less p q \<or> (p = q \<and> parts_less ps qs))"

fun join_parts :: "path \<Rightarrow> pystr" where
  "join_parts [] = []"
| "join_parts [p] = p"
| "join_parts (p # q # ps) = p @ [47] @ join_parts (q # ps)"

definition path_str :: "path \<Rightarrow> pystr" where
  "path_str p = (case p of [] \<Rightarrow> [46]
                 | r # ps \<Rightarrow> if r = [47] then r @ join_parts ps else join_parts p)"

section \<open>The command line and the verdict\<close>

text \<open>
  \<open>cli\<close> is what the user wrote on the command line: each option's value if it was
  given, and the values of the repeatable \<^verbatim>\<open>--allow-fn\<close> in their order. \<open>args\<close> is
  the namespace \<^verbatim>\<open>parser.parse_args()\<close> returns: every option absent from the command
  line has its default, and the \<^verbatim>\<open>append\<close> action of \<^verbatim>\<open>--allow-fn\<close> appends the
  given names to a copy of its default list \<^verbatim>\<open>["execute_task"]\<close>.
\<close>

record cli =
  cli_src :: "pystr option"
  cli_max_file_lines :: "int option"
  cli_max_fn_lines :: "int option"
  cli_allow_fn :: "pystr list"
  cli_strict_errors :: bool
  cli_max_raw_eprintln :: "int option"

record args =
  src :: pystr
  max_file_lines :: int
  max_fn_lines :: int
  allow_fn :: "pystr list"
  strict_errors :: bool
  max_raw_eprintln :: "int option"

definition parse_args :: "cli \<Rightarrow> args" where
  "parse_args c =
     \<lparr> src = (case cli_src c of None \<Rightarrow> str ''src'' | Some s \<Rightarrow> s),
       max_file_lines = (case cli_max_file_lines c of None \<Rightarrow> 400 | Some n \<Rightarrow> n),
       max_fn_lines = (case cli_max_fn_lines c of None \<Rightarrow> 50 | Some n \<Rightarrow> n),
       allow_fn = [str ''execute_task''] @ cli_allow_fn c,
       strict_errors = cli_strict_errors c,
       max_raw_eprintln = cli_max_raw_eprintln c \<rparr>"

text \<open>
  The file system as \<^verbatim>\<open>main\<close> sees it: whether a source root exists, and the
  \<^verbatim>\<open>*.rs\<close> files below it with their texts.
\<close>

record 'p fsys =
  path_exists :: "pystr \<Rightarrow> bool"
  rglob_rs :: "pystr \<Rightarrow> ('p \<times> pystr) list"

text \<open>The lines \<^verbatim>\<open>main\<close> prints, one constructor for each \<^verbatim>\<open>print\<close> of the source.\<close>

datatype 'p out_line =
    ErrorRootNotFound pystr
  | Header
  | FileMaxLines int
  | FnMaxLines int "pystr list"
  | FileViolationsCount nat
  | FileViolationItem 'p nat
  | FunctionViolationsCount nat
  | FunctionViolationItem 'p nat nat pystr nat
  | RawEprintlnCount nat
  | ErrorBaselineExceeded nat int

text \<open>The report printed once the three scans are done, up to the raw count.\<close>

definition report ::
  "args \<Rightarrow> pystr set \<Rightarrow> 'p file_violation list \<Rightarrow> 'p fn_violation list \<Rightarrow> nat \<Rightarrow> 'p out_line list"
where
  "report a allow file_v fn_v ep_count =
     [Header, FileMaxLines (max_file_lines a),
      FnMaxLines (max_fn_lines a) (sorted_list_of_set allow),
      FileViolationsCount (length file_v)]
     @ map (\<lambda>(p, n). FileViolationItem p n) file_v
     @ [FunctionViolationsCount (length fn_v)]
     @ map (\<lambda>(p, name, n, start, end). FunctionViolationItem p start end name n) (take 100 fn_v)
     @ [RawEprintlnCount ep_count]"

text \<open>
  \<^verbatim>\<open>main\<close>: the lines printed and the value returned, which is the exit status. The
  three scans enumerate the files one after the other; the file system does not change
  during a run, and each scan sorts what it enumerates, so one enumeration serves all
  three.
\<close>

definition main :: "('p::linorder) fsys \<Rightarrow> cli \<Rightarrow> 'p out_line list \<times> int" where
  "main fs c =
     (let a = parse_args c; src_root = src a
      in if \<not> path_exists fs src_root then ([ErrorRootNotFound src_root], 2)
         else
           (let allow = set (allow_fn a);
                file_v = file_violations (rglob_rs fs src_root) (max_file_lines a);
                fn_v = function_violations (rglob_rs fs src_root) (max_fn_lines a) allow;
                ep_count = error_pattern_count (rglob_rs fs src_root);
                out = report a allow file_v fn_v ep_count
            in if file_v \<noteq> [] \<or> fn_v \<noteq> [] then (out, 1)
               else if max_raw_eprintln a \<noteq> None \<and> int ep_count > the (max_raw_eprintln a)
                 then (out @ [ErrorBaselineExceeded ep_count (the (max_raw_eprintln a))], 1)
               else if strict_errors a \<and> ep_count > 0 then (out, 1)
               else (out, 0)))"

section \<open>Example inputs\<close>

text \<open>
  Inputs for the concrete runs below: a file of the two lines \<^verbatim>\<open>fn f() {\<close> and
  \<^verbatim>\<open>}\<close>; a file with a two-line function \<^verbatim>\<open>execute_task\<close> followed by a two-line
  function \<^verbatim>\<open>g\<close>; a file whose only function is \<^verbatim>\<open>execute_task\<close>, spanning 80
  lines; a command line without options; a file system in which every source root
  exists and holds the given files, and one in which no source root exists.
\<close>

definition two_line_text :: pystr where
  "two_line_text = str ''fn f() {'' @ [10] @ str ''}''"

definition two_fn_text :: pystr where
  "two_fn_text = str ''fn execute_task() {'' @ [10] @ str ''}'' @ [10] @ str ''fn g() {'' @ [10] @ str ''}''"

definition long_task_lines :: "pystr list" where
  "long_task_lines = str ''fn execute_task() {'' # replicate 78 [] @ [str ''}'']"

definition long_task_text :: pystr where
  "long_task_text = str ''fn execute_task() {'' @ replicate 79 10 @ str ''}''"

definition default_cli :: cli where
  "default_cli = \<lparr> cli_src = None, cli_max_file_lines = None, cli_max_fn_lines = None,
                   cli_allow_fn = [], cli_strict_errors = False, cli_max_raw_eprintln = None \<rparr>"

definition fs_of :: "('p \<times> pystr) list \<Rightarrow> 'p fsys" where
  "fs_of files = \<lparr> path_exists = (\<lambda>root. True), rglob_rs = (\<lambda>root. files) \<rparr>"

definition no_root_fs :: "pystr fsys" where
  "no_root_fs = \<lparr> path_exists = (\<lambda>root. False), rglob_rs = (\<lambda>root. []) \<rparr>"

section \<open>The closing line in the words of the specification\<close>

text \<open>
  The specification describes the closing line as the line in which the depth first
  returns to zero, character by character. \<open>closes_within line st\<close> says that the test
  \<^verbatim>\<open>opened and depth == 0\<close> holds after some character of the line, and
  \<open>spec_close_line\<close> is the first line in which it does. It is compared with
  \<open>close_line\<close>, which is the source's loop.
\<close>

fun closes_within :: "pystr \<Rightarrow> bool \<times> int \<Rightarrow> bool" where
  "closes_within [] st = False"
| "closes_within (ch # cs) st =
     (let st' = brace_step st ch in closed st' \<or> closes_within cs st')"

function spec_close_line :: "pystr list \<Rightarrow> nat \<Rightarrow> bool \<times> int \<Rightarrow> nat option" where
  "spec_close_line lines j st =
     (if j < length lines then
        (if closes_within (lines ! j) st then Some j
         else spec_close_line lines (j + 1) (scan_line (lines ! j) st))
      else None)"
  by pat_completeness auto
termination
  by (relation "measure (\<lambda>(lines, j, st). length lines - j)") auto

declare spec_close_line.simps [simp del]

section \<open>The brace-depth scanner returns the first line that ends closed\<close>

lemma state_after_same: "i < length lines \<Longrightarrow> state_after lines i i st = scan_line (lines ! i) st"
  by (simp add: state_after_def scan_line_def take_Suc_conv_app_nth hd_drop_conv_nth
      flip: Cons_nth_drop_Suc)

lemma state_after_next:
  assumes "i < j" "j < length lines"
  shows "state_after lines i j st = state_after lines (i + 1) j (scan_line (lines ! i) st)"
proof -
  from assms have i: "i < length lines" by simp
  from assms have "j + 1 - i = Suc (j + 1 - (i + 1))" by simp
  then show ?thesis
    by (simp add: state_after_def scan_line_def Cons_nth_drop_Suc [OF i, symmetric])
qed

lemma close_line_Some_iff:
  "close_line lines i st = Some j \<longleftrightarrow>
     i \<le> j \<and> j < length lines \<and> closed (state_after lines i j st) \<and>
     (\<forall>k. i \<le> k \<and> k < j \<longrightarrow> \<not> closed (state_after lines i k st))"
proof (induction lines i st arbitrary: j rule: close_line.induct)
  case (1 lines i st)
  show ?case
  proof (cases "i < length lines")
    case False
    then show ?thesis by (auto simp: close_line.simps [of lines i])
  next
    case True
    let ?st = "scan_line (lines ! i) st"
    show ?thesis
    proof (cases "closed ?st")
      case c: True
      then have "close_line lines i st = Some i"
        using True by (simp add: close_line.simps [of lines i] closed_def)
      moreover have "closed (state_after lines i i st)"
        using c True by (simp add: state_after_same)
      ultimately show ?thesis using True
        by (metis le_eq_less_or_eq linorder_not_less option.inject)
    next
      case c: False
      then have eq: "close_line lines i st = close_line lines (i + 1) ?st"
        using True by (auto simp: close_line.simps [of lines i] closed_def Let_def)
      have nc: "\<not> closed (state_after lines i i st)"
        using c True by (simp add: state_after_same)
      from c have c': "\<not> (fst ?st \<and> snd ?st = 0)" by (simp add: closed_def)
      note IH = "1.IH" [OF True refl c', of j]
      show ?thesis
      proof
        assume "close_line lines i st = Some j"
        with eq IH have a: "i + 1 \<le> j" "j < length lines" "closed (state_after lines (i + 1) j ?st)"
          and b: "\<forall>k. i + 1 \<le> k \<and> k < j \<longrightarrow> \<not> closed (state_after lines (i + 1) k ?st)"
          by simp_all
        have "closed (state_after lines i j st)"
          using a by (simp add: state_after_next)
        moreover have "\<not> closed (state_after lines i k st)" if "i \<le> k" "k < j" for k
        proof (cases "k = i")
          case True
          with nc show ?thesis by simp
        next
          case False
          with that a have "i < k" "k < length lines" by simp_all
          with b that show ?thesis by (simp add: state_after_next)
        qed
        ultimately show "i \<le> j \<and> j < length lines \<and> closed (state_after lines i j st) \<and>
          (\<forall>k. i \<le> k \<and> k < j \<longrightarrow> \<not> closed (state_after lines i k st))"
          using a by simp
      next
        assume r: "i \<le> j \<and> j < length lines \<and> closed (state_after lines i j st) \<and>
          (\<forall>k. i \<le> k \<and> k < j \<longrightarrow> \<not> closed (state_after lines i k st))"
        with nc have "i \<noteq> j" by auto
        with r have ij: "i < j" by simp
        with r have "closed (state_after lines (i + 1) j ?st)"
          using state_after_next [of i j lines st] by simp
        moreover have "\<not> closed (state_after lines (i + 1) k ?st)" if "i + 1 \<le> k" "k < j" for k
        proof -
          from that r have "i < k" "k < length lines" by simp_all
          moreover from that r have "\<not> closed (state_after lines i k st)" by simp
          ultimately show ?thesis using state_after_next [of i k lines st] by simp
        qed
        ultimately show "close_line lines i st = Some j"
          using eq IH ij r by simp
      qed
    qed
  qed
qed

lemma close_line_None_iff:
  "close_line lines i st = None \<longleftrightarrow>
     (\<forall>k. i \<le> k \<and> k < length lines \<longrightarrow> \<not> closed (state_after lines i k st))"
proof
  assume n: "close_line lines i st = None"
  show "\<forall>k. i \<le> k \<and> k < length lines \<longrightarrow> \<not> closed (state_after lines i k st)"
  proof (rule ccontr)
    assume "\<not> ?thesis"
    then have ex: "\<exists>k. i \<le> k \<and> k < length lines \<and> closed (state_after lines i k st)" by blast
    define j where "j = (LEAST k. i \<le> k \<and> k < length lines \<and> closed (state_after lines i k st))"
    from ex have j: "i \<le> j \<and> j < length lines \<and> closed (state_after lines i j st)"
      unfolding j_def by (rule LeastI_ex)
    have "\<not> closed (state_after lines i k st)" if "i \<le> k" "k < j" for k
      using not_less_Least [of k "\<lambda>k. i \<le> k \<and> k < length lines \<and> closed (state_after lines i k st)"]
        that j unfolding j_def by auto
    with j have "close_line lines i st = Some j"
      by (simp add: close_line_Some_iff)
    with n show False by simp
  qed
next
  assume a: "\<forall>k. i \<le> k \<and> k < length lines \<longrightarrow> \<not> closed (state_after lines i k st)"
  show "close_line lines i st = None"
  proof (cases "close_line lines i st")
    case (Some j)
    then have "j < length lines \<and> i \<le> j \<and> closed (state_after lines i j st)"
      by (simp add: close_line_Some_iff)
    with a show ?thesis by blast
  qed simp
qed

text \<open>
  Claim C1, as the code has it. Started at line \<open>i\<close> with nothing opened and depth zero,
  the scanner returns \<open>j\<close> exactly when \<open>j\<close> is the first line from \<open>i\<close> on, within the
  file, at whose end a brace has been opened and the depth is zero. The test is made at
  the end of each line only: a depth that is zero after some character of a line and
  not at the line's end does not close the body there.
\<close>

theorem close_line_first_closed_line_end:
  "close_line lines i (False, 0) = Some j \<longleftrightarrow>
     i \<le> j \<and> j < length lines \<and> closed (state_after lines i j (False, 0)) \<and>
     (\<forall>k. i \<le> k \<and> k < j \<longrightarrow> \<not> closed (state_after lines i k (False, 0)))"
  by (rule close_line_Some_iff)

lemma reopen_state_0: "state_after [str ''fn f() {} {'', str ''}''] 0 0 (False, 0) = (True, 1)"
  by (simp add: state_after_def str_def)

lemma reopen_state_1:
  "state_after [str ''fn f() {} {'', str ''}''] 0 (Suc 0) (False, 0) = (True, 0)"
  by (simp add: state_after_def str_def)

theorem close_line_first_closed_line_end_witness:
  "close_line [str ''fn f() {} {'', str ''}''] 0 (False, 0) = Some 1 \<and>
   closed (state_after [str ''fn f() {} {'', str ''}''] 0 1 (False, 0)) \<and>
   \<not> closed (state_after [str ''fn f() {} {'', str ''}''] 0 0 (False, 0))"
proof -
  have "\<forall>k::nat. 0 \<le> k \<and> k < 1 \<longrightarrow>
          \<not> closed (state_after [str ''fn f() {} {'', str ''}''] 0 k (False, 0))"
    by (simp add: reopen_state_0 closed_def)
  then show ?thesis
    using close_line_first_closed_line_end [of "[str ''fn f() {} {'', str ''}'']" 0 1]
    by (simp add: reopen_state_0 reopen_state_1 closed_def)
qed

text \<open>
  Claim C1 as stated fails. In the two lines \<^verbatim>\<open>fn f() {} {\<close> and \<^verbatim>\<open>}\<close> the first
  line is a signature line, and the depth is back at zero after its ninth character and
  reopens on the same line, so the specification's closing line is line 0; the scanner
  returns line 1.
\<close>

theorem close_line_mid_line_counterexample:
  "PAT_FN (str ''fn f() {} {'') = Some (str ''f'') \<and>
   spec_close_line [str ''fn f() {} {'', str ''}''] 0 (False, 0) = Some 0 \<and>
   close_line [str ''fn f() {} {'', str ''}''] 0 (False, 0) = Some 1"
proof -
  have "PAT_FN (str ''fn f() {} {'') = Some (str ''f'')"
    by (simp add: PAT_FN_def str_def opt_kw_def spaces1_def is_space_def is_name_char_def)
  moreover have "spec_close_line [str ''fn f() {} {'', str ''}''] 0 (False, 0) = Some 0"
    by (simp add: spec_close_line.simps [of _ 0] str_def closed_def)
  moreover have "scan_line (str ''fn f() {} {'') (False, 0) = (True, 1)"
    by (simp add: scan_line_def str_def)
  moreover have "scan_line (str ''}'') (True, 1) = (True, 0)"
    by (simp add: scan_line_def str_def)
  ultimately show ?thesis
    by (simp add: close_line.simps [of _ 0] close_line.simps [of _ "Suc 0"])
qed

section \<open>The outer scan: one step, and the loop as its iteration\<close>

lemma scan_step_no_match:
  "PAT_FN (lines ! i) = None \<Longrightarrow>
   scan_step path lines max_lines allow (i, violations) = (i + 1, violations)"
  by (simp add: scan_step_def)

lemma scan_step_abandon:
  "PAT_FN (lines ! i) = Some name \<Longrightarrow> close_line lines i (False, 0) = None \<Longrightarrow>
   scan_step path lines max_lines allow (i, violations) = (i + 1, violations)"
  by (simp add: scan_step_def)

lemma scan_step_span:
  "PAT_FN (lines ! i) = Some name \<Longrightarrow> close_line lines i (False, 0) = Some j \<Longrightarrow>
   scan_step path lines max_lines allow (i, violations) =
     (j + 1, if int (j - i + 1) > max_lines \<and> name \<notin> allow
             then violations @ [(path, name, j - i + 1, i + 1, j + 1)] else violations)"
  by (simp add: scan_step_def Let_def)

lemma scan_step_acc:
  "scan_step path lines max_lines allow (i, acc) =
     (fst (scan_step path lines max_lines allow (i, [])),
      acc @ snd (scan_step path lines max_lines allow (i, [])))"
  by (simp add: scan_step_def Let_def split: option.splits)

lemma scan_file_acc:
  "scan_file path lines max_lines allow (i, acc) =
     acc @ scan_file path lines max_lines allow (i, [])"
proof (induction "length lines - i" arbitrary: i acc rule: less_induct)
  case less
  show ?case
  proof (cases "i < length lines")
    case False
    then show ?thesis by (simp add: scan_file.simps)
  next
    case True
    obtain i' v' where s: "scan_step path lines max_lines allow (i, []) = (i', v')"
      by (cases "scan_step path lines max_lines allow (i, [])")
    with scan_step_cursor [of i path lines max_lines allow "[]"] have "i < i'" by simp
    with True have m: "length lines - i' < length lines - i" by simp
    have "scan_file path lines max_lines allow (i, acc)
        = scan_file path lines max_lines allow (i', acc @ v')"
      using True s scan_step_acc [of path lines max_lines allow i acc]
      by (simp add: scan_file.simps [of _ _ _ _ i])
    also have "\<dots> = (acc @ v') @ scan_file path lines max_lines allow (i', [])"
      by (rule less [OF m])
    also have "\<dots> = acc @ scan_file path lines max_lines allow (i', v')"
      using less [OF m, of v'] by simp
    also have "scan_file path lines max_lines allow (i', v')
        = scan_file path lines max_lines allow (i, [])"
      using True s by (simp add: scan_file.simps [of _ _ _ _ i])
    finally show ?thesis .
  qed
qed

text \<open>
  Claim C10. Each pass through the body of the outer loop moves the cursor forward: by
  one on a line that is no signature, by one when the body of a signature never closes,
  and to \<open>j + 1\<close> when the body closes at line \<open>j \<ge> i\<close>. So from any cursor \<open>i\<close> the loop
  condition fails after at most \<open>length lines - i\<close> passes, and the value of the scan is
  the list of violations held then. The inner loop ends as well: \<open>close_line\<close> is
  defined by recursion on \<open>length lines - j\<close>.
\<close>

theorem scan_file_terminates:
  "(PAT_FN (lines ! i) = None \<longrightarrow>
      fst (scan_step path lines max_lines allow (i, violations)) = i + 1) \<and>
   (PAT_FN (lines ! i) \<noteq> None \<and> close_line lines i (False, 0) = None \<longrightarrow>
      fst (scan_step path lines max_lines allow (i, violations)) = i + 1) \<and>
   (PAT_FN (lines ! i) \<noteq> None \<and> close_line lines i (False, 0) = Some j \<longrightarrow>
      i \<le> j \<and> fst (scan_step path lines max_lines allow (i, violations)) = j + 1) \<and>
   i < fst (scan_step path lines max_lines allow (i, violations)) \<and>
   (\<exists>n \<le> length lines - i.
      (\<forall>k < n. fst ((scan_step path lines max_lines allow ^^ k) (i, violations)) < length lines) \<and>
      \<not> fst ((scan_step path lines max_lines allow ^^ n) (i, violations)) < length lines \<and>
      scan_file path lines max_lines allow (i, violations) =
        snd ((scan_step path lines max_lines allow ^^ n) (i, violations)))"
proof -
  let ?f = "scan_step path lines max_lines allow"
  have iter: "\<exists>n \<le> length lines - i.
      (\<forall>k < n. fst ((?f ^^ k) (i, violations)) < length lines) \<and>
      \<not> fst ((?f ^^ n) (i, violations)) < length lines \<and>
      scan_file path lines max_lines allow (i, violations) = snd ((?f ^^ n) (i, violations))"
  proof (induction "length lines - i" arbitrary: i violations rule: less_induct)
    case less
    show ?case
    proof (cases "i < length lines")
      case False
      then have "scan_file path lines max_lines allow (i, violations) = violations"
        by (simp add: scan_file.simps)
      with False show ?thesis by (intro exI [of _ 0]) simp
    next
      case True
      obtain i' v' where s: "?f (i, violations) = (i', v')"
        by (cases "?f (i, violations)")
      with scan_step_cursor [of i path lines max_lines allow violations] have ii: "i < i'" by simp
      with True have m: "length lines - i' < length lines - i" by simp
      from less [OF m, of v'] obtain n where n: "n \<le> length lines - i'"
        "\<forall>k < n. fst ((?f ^^ k) (i', v')) < length lines"
        "\<not> fst ((?f ^^ n) (i', v')) < length lines"
        "scan_file path lines max_lines allow (i', v') = snd ((?f ^^ n) (i', v'))"
        by blast
      have step: "(?f ^^ Suc k) (i, violations) = (?f ^^ k) (i', v')" for k
        using s by (simp add: funpow_swap1)
      have "Suc n \<le> length lines - i" using n(1) ii True by simp
      moreover have "\<forall>k < Suc n. fst ((?f ^^ k) (i, violations)) < length lines"
      proof (intro allI impI)
        fix k assume "k < Suc n"
        show "fst ((?f ^^ k) (i, violations)) < length lines"
        proof (cases k)
          case 0
          with True show ?thesis by simp
        next
          case (Suc k')
          with \<open>k < Suc n\<close> n(2) have "fst ((?f ^^ k') (i', v')) < length lines" by simp
          with Suc step [of k'] show ?thesis by simp
        qed
      qed
      moreover have "\<not> fst ((?f ^^ Suc n) (i, violations)) < length lines"
        using n(3) step [of n] by simp
      moreover have "scan_file path lines max_lines allow (i, violations) =
          snd ((?f ^^ Suc n) (i, violations))"
        using n(4) step [of n] True s by (simp add: scan_file.simps [of _ _ _ _ i])
      ultimately show ?thesis by blast
    qed
  qed
  have "i \<le> j" if "close_line lines i (False, 0) = Some j"
    using that by (rule close_line_ge)
  then show ?thesis
    using iter scan_step_cursor [of i path lines max_lines allow violations]
    by (auto simp: scan_step_def Let_def)
qed

text \<open>Concrete lines and their evaluation, used by the examples below.\<close>

lemmas pat_eval = PAT_FN_def str_def opt_kw_def spaces1_def is_space_def is_name_char_def

lemma pat_comment: "PAT_FN (str ''// x'') = None"
  by (simp add: pat_eval)

lemma pat_f: "PAT_FN (str ''fn f() {'') = Some (str ''f'')"
  by (simp add: pat_eval)

lemma scan_open: "scan_line (str ''fn f() {'') (False, 0) = (True, 1)"
  by (simp add: scan_line_def str_def)

lemma scan_close: "scan_line (str ''}'') (True, 1) = (True, 0)"
  by (simp add: scan_line_def str_def)

lemma close_unterminated: "close_line [str ''fn f() {''] 0 (False, 0) = None"
  by (simp add: close_line.simps [of _ 0] close_line.simps [of _ "Suc 0"] scan_open)

lemma close_two: "close_line [str ''fn f() {'', str ''}''] 0 (False, 0) = Some 1"
  by (simp add: close_line.simps [of _ 0] close_line.simps [of _ "Suc 0"] scan_open scan_close)

theorem scan_file_terminates_witness:
  "fst (scan_step (str ''a.rs'') [str ''// x''] 1 {} (0, [])) = 1 \<and>
   fst (scan_step (str ''a.rs'') [str ''fn f() {''] 1 {} (0, [])) = 1 \<and>
   fst (scan_step (str ''a.rs'') [str ''fn f() {'', str ''}''] 1 {} (0, [])) = 2 \<and>
   scan_file (str ''a.rs'') [str ''fn f() {'', str ''}''] 1 {} (0, []) =
     [(str ''a.rs'', str ''f'', 2, 1, 2)]"
proof -
  let ?p = "str ''a.rs''"
  let ?L = "[str ''fn f() {'', str ''}'']"
  let ?f = "scan_step ?p ?L 1 {}"
  have a: "fst (scan_step ?p [str ''// x''] 1 {} (0, [])) = 1"
    using scan_file_terminates [of "[str ''// x'']" 0 ?p 1 "{}" "[]"] pat_comment by simp
  have b: "fst (scan_step ?p [str ''fn f() {''] 1 {} (0, [])) = 1"
    using scan_file_terminates [of "[str ''fn f() {'']" 0 ?p 1 "{}" "[]"] pat_f close_unterminated
    by simp
  note t = scan_file_terminates [of ?L 0 ?p 1 "{}" "[]" 1]
  have c: "fst (?f (0, [])) = 2"
    using t pat_f close_two by simp
  have s: "?f (0, []) = (2, [(?p, str ''f'', 2, 1, 2)])"
    using pat_f close_two by (simp add: scan_step_def)
  from t have "\<exists>n \<le> length ?L - 0. (\<forall>k < n. fst ((?f ^^ k) (0, [])) < length ?L) \<and>
      \<not> fst ((?f ^^ n) (0, [])) < length ?L \<and>
      scan_file ?p ?L 1 {} (0, []) = snd ((?f ^^ n) (0, []))"
    by blast
  then obtain n where n0: "n \<le> length ?L - 0"
    "\<forall>k < n. fst ((?f ^^ k) (0, [])) < length ?L"
    "\<not> fst ((?f ^^ n) (0, [])) < length ?L"
    and n4: "scan_file ?p ?L 1 {} (0, []) = snd ((?f ^^ n) (0, []))"
    by blast
  have len: "length ?L = 2" by simp
  from n0 have n: "n \<le> 2" "\<forall>k < n. fst ((?f ^^ k) (0, [])) < 2"
    "\<not> fst ((?f ^^ n) (0, [])) < 2"
    unfolding len by simp_all
  have "n \<noteq> 0"
  proof
    assume "n = 0"
    with n(3) show False by simp
  qed
  moreover have "n \<noteq> 2"
  proof
    assume "n = 2"
    with n(2) have "(1::nat) < 2 \<longrightarrow> fst ((?f ^^ 1) (0, [])) < 2" by blast
    then have "fst ((?f ^^ 1) (0, [])) < 2" by simp
    with c show False by simp
  qed
  ultimately have "n = 1" using n(1) by simp
  with n4 s have "scan_file ?p ?L 1 {} (0, []) = [(?p, str ''f'', 2, 1, 2)]" by simp
  with a b c show ?thesis by simp
qed

section \<open>What the scan of one file lists\<close>

lemmas v_simps = v_path_def v_name_def v_length_def v_start_def v_end_def

lemma scan_file_unfold:
  "i < length lines \<Longrightarrow>
   scan_file path lines max_lines allow (i, []) =
     snd (scan_step path lines max_lines allow (i, []))
     @ scan_file path lines max_lines allow (fst (scan_step path lines max_lines allow (i, [])), [])"
  using scan_file_acc [of path lines max_lines allow
      "fst (scan_step path lines max_lines allow (i, []))"
      "snd (scan_step path lines max_lines allow (i, []))"]
  by (simp add: scan_file.simps [of _ _ _ _ i])

lemma scan_file_past_end:
  "\<not> i < length lines \<Longrightarrow> scan_file path lines max_lines allow (i, acc) = acc"
  by (simp add: scan_file.simps)

lemma scan_step_mem:
  assumes "v \<in> set (snd (scan_step path lines max_lines allow (i, [])))"
  shows "v_path v = path \<and> v_start v = i + 1 \<and> v_start v \<le> v_end v \<and>
         v_end v \<le> length lines \<and> v_length v = v_end v - v_start v + 1 \<and>
         PAT_FN (lines ! i) = Some (v_name v) \<and>
         close_line lines i (False, 0) = Some (v_end v - 1) \<and>
         fst (scan_step path lines max_lines allow (i, [])) = v_end v \<and>
         int (v_length v) > max_lines \<and> v_name v \<notin> allow"
proof -
  from assms obtain name j where pj: "PAT_FN (lines ! i) = Some name"
    "close_line lines i (False, 0) = Some j"
    by (auto simp: scan_step_def split: option.splits)
  from pj(2) have "i \<le> j" "j < length lines"
    by (rule close_line_ge, rule close_line_less)
  have s: "scan_step path lines max_lines allow (i, []) =
      (j + 1, if int (j - i + 1) > max_lines \<and> name \<notin> allow
              then [(path, name, j - i + 1, i + 1, j + 1)] else [])"
    using pj by (simp add: scan_step_def Let_def)
  with assms have c: "int (j - i + 1) > max_lines" "name \<notin> allow"
    and v: "v = (path, name, j - i + 1, i + 1, j + 1)"
    by (auto split: if_splits)
  have f: "v_path v = path" "v_start v = i + 1" "v_end v = j + 1" "v_length v = j - i + 1"
    "v_name v = name"
    by (simp_all add: v v_simps)
  have "v_start v \<le> v_end v" "v_end v \<le> length lines"
    "v_length v = v_end v - v_start v + 1" "PAT_FN (lines ! i) = Some (v_name v)"
    "close_line lines i (False, 0) = Some (v_end v - 1)"
    "fst (scan_step path lines max_lines allow (i, [])) = v_end v"
    using pj s \<open>i \<le> j\<close> \<open>j < length lines\<close> by (simp_all add: f)
  moreover have "int (v_length v) > max_lines"
    unfolding f using c(1) .
  moreover have "v_name v \<notin> allow"
    unfolding f using c(2) .
  ultimately show ?thesis using f(1,2) by blast
qed

lemma scan_file_mem:
  "v \<in> set (scan_file path lines max_lines allow (i, [])) \<Longrightarrow>
   v_path v = path \<and> i + 1 \<le> v_start v \<and> v_start v \<le> v_end v \<and>
   v_end v \<le> length lines \<and> v_length v = v_end v - v_start v + 1 \<and>
   PAT_FN (lines ! (v_start v - 1)) = Some (v_name v) \<and>
   close_line lines (v_start v - 1) (False, 0) = Some (v_end v - 1) \<and>
   int (v_length v) > max_lines \<and> v_name v \<notin> allow"
proof (induction "length lines - i" arbitrary: i rule: less_induct)
  case less
  show ?case
  proof (cases "i < length lines")
    case False
    with less.prems show ?thesis by (simp add: scan_file_past_end)
  next
    case True
    let ?s = "scan_step path lines max_lines allow (i, [])"
    have ii: "i < fst ?s" by (rule scan_step_cursor)
    from less.prems True consider
      (here) "v \<in> set (snd ?s)" |
      (later) "v \<in> set (scan_file path lines max_lines allow (fst ?s, []))"
      by (auto simp: scan_file_unfold)
    then show ?thesis
    proof cases
      case here
      from scan_step_mem [OF here] have "v_start v = i + 1" by blast
      then have "i + 1 \<le> v_start v" "v_start v - 1 = i" by simp_all
      with scan_step_mem [OF here] show ?thesis by metis
    next
      case later
      from ii True have "length lines - fst ?s < length lines - i" by simp
      from less.hyps [OF this later] ii have "i + 1 \<le> v_start v" by simp
      with less.hyps [OF \<open>length lines - fst ?s < length lines - i\<close> later] show ?thesis
        by blast
    qed
  qed
qed

lemma scan_file_sorted:
  "sorted_wrt (\<lambda>v w. v_end v < v_start w) (scan_file path lines max_lines allow (i, []))"
proof (induction "length lines - i" arbitrary: i rule: less_induct)
  case less
  show ?case
  proof (cases "i < length lines")
    case False
    then show ?thesis by (simp add: scan_file_past_end)
  next
    case True
    let ?s = "scan_step path lines max_lines allow (i, [])"
    have ii: "i < fst ?s" by (rule scan_step_cursor)
    with True have m: "length lines - fst ?s < length lines - i" by simp
    have "sorted_wrt (\<lambda>v w. v_end v < v_start w) (snd ?s)"
      by (simp add: scan_step_def Let_def split: option.splits)
    moreover have "v_end v < v_start w"
      if "v \<in> set (snd ?s)" "w \<in> set (scan_file path lines max_lines allow (fst ?s, []))" for v w
      using scan_step_mem [OF that(1)] scan_file_mem [OF that(2)] by simp
    ultimately show ?thesis
      using less.hyps [OF m] True by (simp add: scan_file_unfold sorted_wrt_append)
  qed
qed

lemma scan_step_thresholds:
  "fst (scan_step path lines max_lines allow (i, [])) = fst (scan_step path lines 0 {} (i, [])) \<and>
   snd (scan_step path lines max_lines allow (i, [])) =
     filter (\<lambda>v. int (v_length v) > max_lines \<and> v_name v \<notin> allow)
       (snd (scan_step path lines 0 {} (i, [])))"
  by (simp add: scan_step_def Let_def v_simps split: option.splits)

lemma scan_file_filter:
  "scan_file path lines max_lines allow (i, []) =
     filter (\<lambda>v. int (v_length v) > max_lines \<and> v_name v \<notin> allow)
       (scan_file path lines 0 {} (i, []))"
proof (induction "length lines - i" arbitrary: i rule: less_induct)
  case less
  show ?case
  proof (cases "i < length lines")
    case False
    then show ?thesis by (simp add: scan_file_past_end)
  next
    case True
    let ?s = "scan_step path lines max_lines allow (i, [])"
    have ii: "i < fst ?s" by (rule scan_step_cursor)
    with True have m: "length lines - fst ?s < length lines - i" by simp
    from less.hyps [OF m] scan_step_thresholds [of path lines max_lines allow i] True
    show ?thesis
      by (simp add: scan_file_unfold [of i lines path max_lines allow]
          scan_file_unfold [of i lines path 0 "{}"])
  qed
qed

section \<open>The violation lists over all files\<close>

lemma function_violations_foldl:
  "foldl (\<lambda>violations (path, text).
            scan_file path (splitlines text) max_lines allow (0, violations)) acc xs =
   acc @ concat (map (\<lambda>(path, text). scan_file path (splitlines text) max_lines allow (0, [])) xs)"
proof (induction xs arbitrary: acc)
  case Nil
  then show ?case by simp
next
  case (Cons x xs)
  obtain path t where x: "x = (path, t)" by (cases x)
  show ?case
    using scan_file_acc [of path "splitlines t" max_lines allow 0 acc]
    by (simp add: x Cons.IH)
qed

lemma function_violations_concat:
  "function_violations files max_lines allow =
     concat (map (\<lambda>(path, text). scan_file path (splitlines text) max_lines allow (0, []))
               (sort_key fst files))"
  by (simp add: function_violations_def function_violations_foldl)

lemma file_violations_foldl:
  "foldl (\<lambda>violations (path, text).
            (let lines = splitlines text
             in if int (length lines) > max_lines
                then violations @ [(path, length lines)]
                else violations)) acc xs =
   acc @ concat (map (\<lambda>(path, text).
                        if int (length (splitlines text)) > max_lines
                        then [(path, length (splitlines text))] else []) xs)"
proof (induction xs arbitrary: acc)
  case Nil
  then show ?case by simp
next
  case (Cons x xs)
  obtain path t where x: "x = (path, t)" by (cases x)
  show ?case using Cons.IH by (simp add: x Let_def)
qed

lemma file_violations_concat:
  "file_violations files max_lines =
     concat (map (\<lambda>(path, text).
                    if int (length (splitlines text)) > max_lines
                    then [(path, length (splitlines text))] else [])
               (sort_key fst files))"
  by (simp add: file_violations_def file_violations_foldl)

lemma function_violations_mem:
  "v \<in> set (function_violations files max_lines allow) \<longleftrightarrow>
     (\<exists>path text. (path, text) \<in> set files \<and>
        v \<in> set (scan_file path (splitlines text) max_lines allow (0, [])))"
  by (auto simp: function_violations_concat)

lemma close_line_same_line:
  "i < length lines \<Longrightarrow> closed (scan_line (lines ! i) st) \<Longrightarrow> close_line lines i st = Some i"
  by (simp add: close_line.simps [of lines i] closed_def)


lemma one_line_split: "splitlines (str ''fn f() {}'') = [str ''fn f() {}'']"
  by (simp add: splitlines_def str_def is_linebreak_def)

lemma one_line_pat: "PAT_FN (str ''fn f() {}'') = Some (str ''f'')"
  by (simp add: pat_eval)

lemma one_line_scan: "scan_line (str ''fn f() {}'') (False, 0) = (True, 0)"
  by (simp add: scan_line_def str_def)


text \<open>
  Claim C5. When the body of the signature at line \<open>i\<close> never closes (at no line end
  from \<open>i\<close> to the end of the file a brace has been opened and the depth is zero, which
  includes the case that no opening brace is ever seen), the step of the scan at \<open>i\<close>
  adds nothing and moves the cursor to \<open>i + 1\<close>, the scan goes on from there, and no
  entry of the file's list starts at that signature line.
\<close>

theorem unterminated_body_skipped:
  assumes "i < length lines" and "PAT_FN (lines ! i) = Some name"
    and "\<forall>j. i \<le> j \<and> j < length lines \<longrightarrow> \<not> closed (state_after lines i j (False, 0))"
  shows "scan_step path lines max_lines allow (i, vs) = (i + 1, vs) \<and>
         scan_file path lines max_lines allow (i, vs) =
           scan_file path lines max_lines allow (i + 1, vs) \<and>
         (\<forall>v \<in> set (scan_file path lines max_lines allow (0, [])). v_start v \<noteq> i + 1)"
proof -
  from assms(3) have n: "close_line lines i (False, 0) = None"
    by (simp add: close_line_None_iff)
  with assms(2) have s: "scan_step path lines max_lines allow (i, vs) = (i + 1, vs)"
    by (simp add: scan_step_def)
  with assms(1) have "scan_file path lines max_lines allow (i, vs) =
      scan_file path lines max_lines allow (i + 1, vs)"
    by (simp add: scan_file.simps [of _ _ _ _ i])
  moreover have "v_start v \<noteq> i + 1"
    if "v \<in> set (scan_file path lines max_lines allow (0, []))" for v
  proof
    assume "v_start v = i + 1"
    with scan_file_mem [OF that] have "close_line lines i (False, 0) = Some (v_end v - 1)"
      by simp
    with n show False by simp
  qed
  ultimately show ?thesis using s by blast
qed

lemma open_pat: "PAT_FN (str ''fn f() {'') = Some (str ''f'')"
  by (simp add: pat_eval)

lemma g_pat: "PAT_FN (str ''fn g() {}'') = Some (str ''g'')"
  by (simp add: pat_eval)

lemma open_g_state_0: "state_after [str ''fn f() {'', str ''fn g() {}''] 0 0 (False, 0) = (True, 1)"
  by (simp add: state_after_def str_def)

lemma open_g_state_1:
  "state_after [str ''fn f() {'', str ''fn g() {}''] 0 (Suc 0) (False, 0) = (True, 1)"
  by (simp add: state_after_def str_def)

lemma g_scan: "scan_line (str ''fn g() {}'') (False, 0) = (True, 0)"
  by (simp add: scan_line_def str_def)

theorem unterminated_body_skipped_witness:
  "scan_step (str ''a.rs'') [str ''fn f() {'', str ''fn g() {}''] 0 {} (0, []) = (1, []) \<and>
   scan_file (str ''a.rs'') [str ''fn f() {'', str ''fn g() {}''] 0 {} (0, []) =
     [(str ''a.rs'', str ''g'', 1, 2, 2)]"
proof -
  let ?p = "str ''a.rs''"
  let ?L = "[str ''fn f() {'', str ''fn g() {}'']"
  have "\<not> closed (state_after ?L 0 j (False, 0))" if "j < 2" for j
  proof -
    from that have "j = 0 \<or> j = Suc 0" by auto
    then show ?thesis by (auto simp: open_g_state_0 open_g_state_1 closed_def)
  qed
  then have h: "\<forall>j. 0 \<le> j \<and> j < length ?L \<longrightarrow> \<not> closed (state_after ?L 0 j (False, 0))"
    by simp
  have l: "0 < length ?L" by simp
  have p: "PAT_FN (?L ! 0) = Some (str ''f'')" by (simp add: open_pat)
  note t = unterminated_body_skipped [OF l p h, of ?p 0 "{}" "[]"]
  have "close_line ?L (Suc 0) (False, 0) = Some (Suc 0)"
    by (simp add: close_line_same_line g_scan closed_def)
  then have "scan_file ?p ?L 0 {} (Suc 0, []) = [(?p, str ''g'', 1, 2, 2)]"
    by (simp add: scan_file.simps [of _ _ _ _ "Suc 0"] scan_file.simps [of _ _ _ _ "Suc (Suc 0)"]
        scan_step_def g_pat)
  with t show ?thesis by simp
qed

lemma sorted_wrt_pair:
  "sorted_wrt R xs \<Longrightarrow> a \<in> set xs \<Longrightarrow> b \<in> set xs \<Longrightarrow> a \<noteq> b \<Longrightarrow> R a b \<or> R b a"
  by (induction xs) auto

lemma sorted_wrt_distinct_start:
  assumes "sorted_wrt (\<lambda>v w. v_end v < v_start w) xs" and "\<forall>v \<in> set xs. v_start v \<le> v_end v"
  shows "distinct (map v_start xs)"
  using assms by (induction xs) (auto simp: image_iff)

text \<open>
  Claim C6. The spans of a file do not overlap: each ends before the next one starts.
  A line strictly inside a span, after its signature line and up to its closing line,
  is the start of no entry of the file's list, whatever the limit and the exempt names
  are: a signature nested in a closed body is not scanned on its own. The reason is the
  cursor, which the step of the scan moves from a signature whose body closes at line
  \<open>j\<close> directly to \<open>j + 1\<close>.
\<close>

theorem spans_do_not_overlap:
  "sorted_wrt (\<lambda>v w. v_end v < v_start w) (file_spans path lines) \<and>
   (v \<in> set (file_spans path lines) \<and> v_start v < k \<and> k \<le> v_end v \<longrightarrow>
      (\<forall>w \<in> set (scan_file path lines max_lines allow (0, [])). v_start w \<noteq> k)) \<and>
   (PAT_FN (lines ! i) = Some name \<and> close_line lines i (False, 0) = Some j \<longrightarrow>
      fst (scan_step path lines max_lines allow (i, vs)) = j + 1)"
proof (intro conjI impI ballI)
  show s: "sorted_wrt (\<lambda>v w. v_end v < v_start w) (file_spans path lines)"
    unfolding file_spans_def by (rule scan_file_sorted)
  show "fst (scan_step path lines max_lines allow (i, vs)) = j + 1"
    if "PAT_FN (lines ! i) = Some name \<and> close_line lines i (False, 0) = Some j"
    using that by (simp add: scan_step_def Let_def)
  fix w
  assume v: "v \<in> set (file_spans path lines) \<and> v_start v < k \<and> k \<le> v_end v"
    and w: "w \<in> set (scan_file path lines max_lines allow (0, []))"
  from w have ws: "w \<in> set (file_spans path lines)"
    by (subst (asm) scan_file_filter) (simp add: file_spans_def)
  show "v_start w \<noteq> k"
  proof
    assume k: "v_start w = k"
    with v have ne: "v \<noteq> w" by auto
    from ws have we: "v_start w \<le> v_end w"
      unfolding file_spans_def by (simp add: scan_file_mem)
    from v have "v \<in> set (file_spans path lines)" by simp
    from sorted_wrt_pair [OF s this ws ne]
    have "v_end v < v_start w \<or> v_end w < v_start v" .
    with v k we show False by simp
  qed
qed


lemma outer_pat: "PAT_FN (str ''fn outer() {'') = Some (str ''outer'')"
  by (simp add: pat_eval)

lemma inner_pat: "PAT_FN (str ''  fn inner() {'') = Some (str ''inner'')"
  by (simp add: pat_eval)

lemma nested_close:
  "close_line [str ''fn outer() {'', str ''  fn inner() {'', str ''  }'', str ''}''] 0 (False, 0)
     = Some 3"
proof -
  have "scan_line (str ''fn outer() {'') (False, 0) = (True, 1)"
    "scan_line (str ''  fn inner() {'') (True, 1) = (True, 2)"
    "scan_line (str ''  }'') (True, 2) = (True, 1)"
    "scan_line (str ''}'') (True, 1) = (True, 0)"
    by (simp_all add: scan_line_def str_def)
  then show ?thesis
    by (simp add: close_line.simps [of _ 0] close_line.simps [of _ "Suc 0"]
        close_line.simps [of _ "Suc (Suc 0)"] close_line.simps [of _ "Suc (Suc (Suc 0))"]
        eval_nat_numeral)
qed

lemma nested_spans:
  "file_spans (str ''a.rs'')
     [str ''fn outer() {'', str ''  fn inner() {'', str ''  }'', str ''}''] =
   [(str ''a.rs'', str ''outer'', 4, 1, 4)]"
  by (simp add: file_spans_def scan_file.simps [of _ _ _ _ 0] scan_file.simps [of _ _ _ _ 4]
      scan_step_def outer_pat nested_close)

theorem spans_do_not_overlap_witness:
  "file_spans (str ''a.rs'')
     [str ''fn outer() {'', str ''  fn inner() {'', str ''  }'', str ''}''] =
     [(str ''a.rs'', str ''outer'', 4, 1, 4)] \<and>
   PAT_FN ([str ''fn outer() {'', str ''  fn inner() {'', str ''  }'', str ''}''] ! 1) =
     Some (str ''inner'') \<and>
   (str ''a.rs'', str ''inner'', 2, 2, 3) \<notin>
     set (scan_file (str ''a.rs'')
            [str ''fn outer() {'', str ''  fn inner() {'', str ''  }'', str ''}''] 0 {} (0, [])) \<and>
   fst (scan_step (str ''a.rs'')
          [str ''fn outer() {'', str ''  fn inner() {'', str ''  }'', str ''}''] 0 {} (0, [])) = 4"
proof -
  let ?p = "str ''a.rs''"
  let ?L = "[str ''fn outer() {'', str ''  fn inner() {'', str ''  }'', str ''}'']"
  let ?v = "(?p, str ''outer'', 4::nat, 1::nat, 4::nat)"
  let ?w = "(?p, str ''inner'', 2::nat, 2::nat, 3::nat)"
  note t = spans_do_not_overlap [where path = ?p and lines = ?L and v = ?v and k = 2
      and max_lines = 0 and allow = "{}" and i = 0 and name = "str ''outer''" and j = 3
      and vs = "[]"]
  have "?v \<in> set (file_spans ?p ?L) \<and> v_start ?v < 2 \<and> 2 \<le> v_end ?v"
    by (simp add: nested_spans v_simps)
  with t have b: "\<forall>w \<in> set (scan_file ?p ?L 0 {} (0, [])). v_start w \<noteq> 2" by blast
  have "?w \<notin> set (scan_file ?p ?L 0 {} (0, []))"
  proof
    assume "?w \<in> set (scan_file ?p ?L 0 {} (0, []))"
    with b have "v_start ?w \<noteq> 2" by blast
    then show False by (simp add: v_simps)
  qed
  moreover have "PAT_FN (?L ! 0) = Some (str ''outer'') \<and> close_line ?L 0 (False, 0) = Some 3"
    by (simp add: outer_pat nested_close)
  with t have "fst (scan_step ?p ?L 0 {} (0, [])) = 3 + 1" by blast
  ultimately show ?thesis by (simp add: nested_spans inner_pat)
qed

section \<open>The order of the violation lists\<close>

lemma sort_key_set_unique:
  assumes "distinct (map fst xs)" "distinct (map fst ys)" "set ys = set xs"
  shows "sort_key fst ys = sort_key fst xs"
proof -
  from assms(1,2) have d: "distinct xs" "distinct ys" and i: "inj_on fst (set ys)"
    by (simp_all add: distinct_map)
  from d assms(3) have "mset ys = mset xs"
    by (simp add: set_eq_iff_mset_eq_distinct)
  then have "mset ys = mset (sort_key fst xs)" by simp
  from this i show ?thesis
    by (rule sort_key_inj_key_eq) simp
qed

lemma sorted_paths:
  "distinct (map fst xs) \<Longrightarrow> sorted_wrt (\<lambda>x y. fst x < fst y) (sort_key fst xs)"
proof -
  assume "distinct (map fst xs)"
  then have "distinct (map fst (sort_key fst xs))"
    by (simp add: distinct_map)
  moreover have "sorted (map fst (sort_key fst xs))" by simp
  ultimately have "sorted_wrt (<) (map fst (sort_key fst xs))"
    by (simp add: strict_sorted_iff)
  then show ?thesis by (simp add: sorted_wrt_map)
qed

lemma sorted_wrt_concat_map:
  assumes "sorted_wrt Q xs" and "\<And>x. x \<in> set xs \<Longrightarrow> sorted_wrt R (f x)"
    and "\<And>x y a b. Q x y \<Longrightarrow> a \<in> set (f x) \<Longrightarrow> b \<in> set (f y) \<Longrightarrow> R a b"
  shows "sorted_wrt R (concat (map f xs))"
  using assms by (induction xs) (auto simp: sorted_wrt_append)

lemma file_violations_filter_aux:
  "concat (map (\<lambda>(path, text). if int (length (splitlines text)) > max_lines
                   then [(path, length (splitlines text))] else []) xs) =
   map (\<lambda>(path, text). (path, length (splitlines text)))
     (filter (\<lambda>(path, text). int (length (splitlines text)) > max_lines) xs)"
  by (induction xs) auto

lemma file_violations_filter:
  "file_violations files max_lines =
     map (\<lambda>(path, text). (path, length (splitlines text)))
       (filter (\<lambda>(path, text). int (length (splitlines text)) > max_lines) (sort_key fst files))"
  by (simp only: file_violations_concat file_violations_filter_aux)

lemma violation_order_any_paths:
  assumes "distinct (map fst files)" and "distinct (map fst files')" and "set files' = set files"
  shows "file_violations files' max_file = file_violations files max_file \<and>
         function_violations files' max_fn allow = function_violations files max_fn allow \<and>
         sorted_wrt (<) (map fst (file_violations files max_file)) \<and>
         sorted_wrt (\<lambda>v w. v_path v < v_path w \<or> (v_path v = v_path w \<and> v_end v < v_start w))
           (function_violations files max_fn allow)"
proof -
  from assms have s: "sort_key fst files' = sort_key fst files"
    by (rule sort_key_set_unique)
  then have "file_violations files' max_file = file_violations files max_file"
    "function_violations files' max_fn allow = function_violations files max_fn allow"
    by (simp_all add: file_violations_def function_violations_def)
  moreover have "sorted_wrt (<) (map fst (file_violations files max_file))"
  proof -
    have "map fst (file_violations files max_file) =
        map fst (filter (\<lambda>(path, text). int (length (splitlines text)) > max_file)
                   (sort_key fst files))"
      by (simp add: file_violations_filter case_prod_unfold comp_def)
    moreover have "sorted_wrt (\<lambda>x y. fst x < fst y)
        (filter (\<lambda>(path, text). int (length (splitlines text)) > max_file) (sort_key fst files))"
      using sorted_paths [OF assms(1)] by (rule sorted_wrt_filter)
    ultimately show ?thesis by (simp add: sorted_wrt_map)
  qed
  moreover have "sorted_wrt (\<lambda>v w. v_path v < v_path w \<or> (v_path v = v_path w \<and> v_end v < v_start w))
      (function_violations files max_fn allow)"
    unfolding function_violations_concat
  proof (rule sorted_wrt_concat_map [OF sorted_paths [OF assms(1)]])
    fix x :: "'a \<times> pystr"
    obtain p t where x: "x = (p, t)" by (cases x)
    let ?vs = "scan_file p (splitlines t) max_fn allow (0, [])"
    have "sorted_wrt (\<lambda>v w. v_end v < v_start w) ?vs"
      by (rule scan_file_sorted)
    then have "sorted_wrt (\<lambda>v w. v_path v < v_path w \<or> (v_path v = v_path w \<and> v_end v < v_start w)) ?vs"
    proof (rule sorted_wrt_mono_rel [rotated])
      fix v w assume "v \<in> set ?vs" "w \<in> set ?vs" "v_end v < v_start w"
      with scan_file_mem [of v p "splitlines t" max_fn allow 0]
        scan_file_mem [of w p "splitlines t" max_fn allow 0]
      show "v_path v < v_path w \<or> (v_path v = v_path w \<and> v_end v < v_start w)" by simp
    qed
    then show "sorted_wrt (\<lambda>v w. v_path v < v_path w \<or> (v_path v = v_path w \<and> v_end v < v_start w))
        (case x of (path, text) \<Rightarrow> scan_file path (splitlines text) max_fn allow (0, []))"
      by (simp add: x)
  next
    fix x y :: "'a \<times> pystr" and a b
    obtain p t where x: "x = (p, t)" by (cases x)
    obtain q u where y: "y = (q, u)" by (cases y)
    assume "fst x < fst y"
      and "a \<in> set (case x of (path, text) \<Rightarrow> scan_file path (splitlines text) max_fn allow (0, []))"
      and "b \<in> set (case y of (path, text) \<Rightarrow> scan_file path (splitlines text) max_fn allow (0, []))"
    then have "p < q" "a \<in> set (scan_file p (splitlines t) max_fn allow (0, []))"
      "b \<in> set (scan_file q (splitlines u) max_fn allow (0, []))"
      by (simp_all add: x y)
    with scan_file_mem [of a p "splitlines t" max_fn allow 0]
      scan_file_mem [of b q "splitlines u" max_fn allow 0]
    show "v_path a < v_path b \<or> (v_path a = v_path b \<and> v_end a < v_start b)" by simp
  qed
  ultimately show ?thesis by blast
qed

lemma str_less_iff: "str_less a b \<longleftrightarrow> a < b"
  by (induction a b rule: str_less.induct) simp_all

lemma parts_less_iff: "parts_less p q \<longleftrightarrow> p < q"
  by (induction p q rule: parts_less.induct) (simp_all add: str_less_iff)

text \<open>
  Claim C7, as the code has it. Two enumerations of the same files, each path enumerated
  once, give the same list of file violations and the same list of function violations:
  the lists do not depend on the order of the enumeration. The file violations are in
  strictly increasing order of path, and the function violations are in increasing
  order of path and, within one file, from top to bottom, each ending before the next
  one starts. The order of paths is the one \<^verbatim>\<open>sorted\<close> uses: component by component.
\<close>

theorem violation_order_deterministic:
  fixes files files' :: "(path \<times> pystr) list"
  assumes "distinct (map fst files)" and "distinct (map fst files')" and "set files' = set files"
  shows "file_violations files' max_file = file_violations files max_file \<and>
         function_violations files' max_fn allow = function_violations files max_fn allow \<and>
         sorted_wrt parts_less (map fst (file_violations files max_file)) \<and>
         sorted_wrt (\<lambda>v w. parts_less (v_path v) (v_path w) \<or>
                           (v_path v = v_path w \<and> v_end v < v_start w))
           (function_violations files max_fn allow)"
  using violation_order_any_paths [OF assms, of max_file max_fn allow]
  by (simp add: parts_less_iff [abs_def])

lemma g_line_split: "splitlines (str ''fn g() {}'') = [str ''fn g() {}'']"
  by (simp add: splitlines_def str_def is_linebreak_def)

lemma foo_paths_order:
  "str ''foo'' < str ''foo.rs''" "\<not> str ''foo.rs'' < str ''foo''" "str ''foo.rs'' \<noteq> str ''foo''"
  by (simp_all add: str_def)

lemma foo_file_violations:
  "file_violations [([str ''src'', str ''foo.rs''], str ''fn f() {}''),
                    ([str ''src'', str ''foo'', str ''bar.rs''], str ''fn g() {}'')] 0 =
     [([str ''src'', str ''foo'', str ''bar.rs''], 1), ([str ''src'', str ''foo.rs''], 1)]"
  by (simp add: file_violations_filter foo_paths_order one_line_split g_line_split)

theorem violation_order_deterministic_witness:
  "file_violations [([str ''src'', str ''foo.rs''], str ''fn f() {}''),
                    ([str ''src'', str ''foo'', str ''bar.rs''], str ''fn g() {}'')] 0 =
     [([str ''src'', str ''foo'', str ''bar.rs''], 1), ([str ''src'', str ''foo.rs''], 1)] \<and>
   file_violations [([str ''src'', str ''foo'', str ''bar.rs''], str ''fn g() {}''),
                    ([str ''src'', str ''foo.rs''], str ''fn f() {}'')] 0 =
     [([str ''src'', str ''foo'', str ''bar.rs''], 1), ([str ''src'', str ''foo.rs''], 1)] \<and>
   function_violations [([str ''src'', str ''foo'', str ''bar.rs''], str ''fn g() {}''),
                        ([str ''src'', str ''foo.rs''], str ''fn f() {}'')] 0 {} =
   function_violations [([str ''src'', str ''foo.rs''], str ''fn f() {}''),
                        ([str ''src'', str ''foo'', str ''bar.rs''], str ''fn g() {}'')] 0 {} \<and>
   parts_less [str ''src'', str ''foo'', str ''bar.rs''] [str ''src'', str ''foo.rs'']"
proof -
  let ?a = "[str ''src'', str ''foo.rs'']"
  let ?b = "[str ''src'', str ''foo'', str ''bar.rs'']"
  let ?F = "[(?a, str ''fn f() {}''), (?b, str ''fn g() {}'')]"
  let ?F' = "[(?b, str ''fn g() {}''), (?a, str ''fn f() {}'')]"
  have ne: "?a \<noteq> ?b" by (simp add: str_def)
  then have d: "distinct (map fst ?F)" and d': "distinct (map fst ?F')" by auto
  have s: "set ?F' = set ?F" by auto
  note t = violation_order_deterministic [OF d d' s, of 0 0 "{}"]
  note fv = foo_file_violations
  from t have e1: "file_violations ?F' 0 = file_violations ?F 0"
    by (rule conjunct1)
  from t have e2: "function_violations ?F' 0 {} = function_violations ?F 0 {}"
    by (rule conjunct2 [THEN conjunct1])
  from t have "sorted_wrt parts_less (map fst (file_violations ?F 0))"
    by (rule conjunct2 [THEN conjunct2, THEN conjunct1])
  then have e3: "parts_less ?b ?a"
    unfolding fv by simp
  show ?thesis
    by (intro conjI) (rule fv, rule trans [OF e1 fv], rule e2, rule e3)
qed

text \<open>
  Claim C7 as stated fails: the paths reported are not in the lexicographic order of
  their strings. For the files \<^verbatim>\<open>src/foo.rs\<close> and \<^verbatim>\<open>src/foo/bar.rs\<close>, each a
  one-line function over the limit 0, both lists report \<^verbatim>\<open>src/foo/bar.rs\<close> first,
  and as a string \<^verbatim>\<open>src/foo.rs\<close> is the smaller one.
\<close>

theorem reported_paths_order_counterexample:
  "map (\<lambda>v. path_str (fst v))
     (file_violations [([str ''src'', str ''foo.rs''], str ''fn f() {}''),
                       ([str ''src'', str ''foo'', str ''bar.rs''], str ''fn g() {}'')] 0) =
     [str ''src/foo/bar.rs'', str ''src/foo.rs''] \<and>
   map (\<lambda>v. path_str (v_path v))
     (function_violations [([str ''src'', str ''foo.rs''], str ''fn f() {}''),
                           ([str ''src'', str ''foo'', str ''bar.rs''], str ''fn g() {}'')] 0 {}) =
     [str ''src/foo/bar.rs'', str ''src/foo.rs''] \<and>
   str_less (str ''src/foo.rs'') (str ''src/foo/bar.rs'')"
proof -
  let ?a = "[str ''src'', str ''foo.rs'']"
  let ?b = "[str ''src'', str ''foo'', str ''bar.rs'']"
  have pa: "path_str ?a = str ''src/foo.rs''" and pb: "path_str ?b = str ''src/foo/bar.rs''"
    by (simp_all add: path_str_def str_def)
  have sf: "scan_file ?a [str ''fn f() {}''] 0 {} (0, []) = [(?a, str ''f'', 1, 1, 1)]"
    by (simp add: scan_file.simps [of _ _ _ _ 0] scan_file_past_end scan_step_def one_line_pat
        close_line_same_line one_line_scan closed_def)
  have sg: "scan_file ?b [str ''fn g() {}''] 0 {} (0, []) = [(?b, str ''g'', 1, 1, 1)]"
    by (simp add: scan_file.simps [of _ _ _ _ 0] scan_file_past_end scan_step_def g_pat
        close_line_same_line g_scan closed_def)
  have "function_violations [(?a, str ''fn f() {}''), (?b, str ''fn g() {}'')] 0 {} =
      [(?b, str ''g'', 1, 1, 1), (?a, str ''f'', 1, 1, 1)]"
    by (simp add: function_violations_concat foo_paths_order one_line_split g_line_split sf sg)
  moreover have "str_less (str ''src/foo.rs'') (str ''src/foo/bar.rs'')"
    by (simp add: str_def)
  ultimately show ?thesis
    by (simp add: foo_file_violations pa pb v_simps)
qed

section \<open>The thresholds\<close>

lemma filter_concat_other:
  assumes "k \<notin> fst ` set xs" and "\<And>x w. x \<in> set xs \<Longrightarrow> w \<in> set (f x) \<Longrightarrow> g w = fst x"
  shows "filter (\<lambda>w. g w = k \<and> Q w) (concat (map f xs)) = []"
  using assms by (induction xs) (auto simp: filter_empty_conv)

lemma filter_concat_key:
  assumes "distinct (map fst xs)" and "(k, t) \<in> set xs"
    and "\<And>x w. x \<in> set xs \<Longrightarrow> w \<in> set (f x) \<Longrightarrow> g w = fst x"
  shows "filter (\<lambda>w. g w = k \<and> Q w) (concat (map f xs)) = filter Q (f (k, t))"
  using assms
proof (induction xs)
  case Nil
  then show ?case by simp
next
  case (Cons x xs)
  show ?case
  proof (cases "x = (k, t)")
    case True
    with Cons.prems(1) have "k \<notin> fst ` set xs" by simp
    then have "filter (\<lambda>w. g w = k \<and> Q w) (concat (map f xs)) = []"
      using Cons.prems(3) by (intro filter_concat_other) auto
    moreover have "filter (\<lambda>w. g w = k \<and> Q w) (f x) = filter Q (f x)"
      using Cons.prems(3) [of x] True by (intro filter_cong) auto
    ultimately show ?thesis using True by simp
  next
    case False
    with Cons.prems(2) have in_xs: "(k, t) \<in> set xs" by simp
    with Cons.prems(1) have "fst x \<noteq> k" by (auto simp: image_iff)
    then have "filter (\<lambda>w. g w = k \<and> Q w) (f x) = []"
      using Cons.prems(3) [of x] by (auto simp: filter_empty_conv)
    moreover have "filter (\<lambda>w. g w = k \<and> Q w) (concat (map f xs)) = filter Q (f (k, t))"
      using Cons.prems(1,3) in_xs by (intro Cons.IH) auto
    ultimately show ?thesis by simp
  qed
qed

lemma filter_distinct_key:
  "distinct (map h xs) \<Longrightarrow> x \<in> set xs \<Longrightarrow> filter (\<lambda>y. h y = h x) xs = [x]"
  by (induction xs) (auto simp: filter_empty_conv image_iff)

lemma file_spans_distinct_start: "distinct (map v_start (file_spans path lines))"
  unfolding file_spans_def
  by (rule sorted_wrt_distinct_start [OF scan_file_sorted]) (simp add: scan_file_mem)

text \<open>
  Claim C4. Both limits are strict. Among the files enumerated, each path once, the file
  violations of a file are one entry with its line count when the count is greater than
  the limit, and none otherwise: none at the limit, one at the limit plus one. For every
  span of the file, the function violations that start at its signature line are the
  span itself when its line count is greater than the limit and its name is not exempt,
  and none otherwise.
\<close>

theorem thresholds_strict:
  assumes "distinct (map fst files)" and "(path, text) \<in> set files"
  shows "filter (\<lambda>v. fst v = path) (file_violations files max_file) =
           (if int (length (splitlines text)) > max_file
            then [(path, length (splitlines text))] else []) \<and>
         (\<forall>v \<in> set (file_spans path (splitlines text)).
            filter (\<lambda>w. v_path w = path \<and> v_start w = v_start v)
              (function_violations files max_fn allow) =
            (if int (v_length v) > max_fn \<and> v_name v \<notin> allow then [v] else []))"
proof (intro conjI ballI)
  let ?f = "\<lambda>(path, text). if int (length (splitlines text)) > max_file
                   then [(path, length (splitlines text))] else []"
  from assms have d: "distinct (map fst (sort_key fst files))"
    and m: "(path, text) \<in> set (sort_key fst files)"
    by (simp_all add: distinct_map)
  have "filter (\<lambda>w. fst w = path \<and> True) (concat (map ?f (sort_key fst files))) =
      filter (\<lambda>w. True) (?f (path, text))"
    using d m by (rule filter_concat_key) (auto split: if_splits)
  then show "filter (\<lambda>v. fst v = path) (file_violations files max_file) =
           (if int (length (splitlines text)) > max_file
            then [(path, length (splitlines text))] else [])"
    by (simp add: file_violations_concat)
next
  fix v
  assume v: "v \<in> set (file_spans path (splitlines text))"
  let ?lines = "splitlines text"
  let ?f = "\<lambda>(path, text). scan_file path (splitlines text) max_fn allow (0, [])"
  let ?P = "\<lambda>v. int (v_length v) > max_fn \<and> v_name v \<notin> allow"
  from assms have d: "distinct (map fst (sort_key fst files))"
    and m: "(path, text) \<in> set (sort_key fst files)"
    by (simp_all add: distinct_map)
  have "filter (\<lambda>w. v_path w = path \<and> v_start w = v_start v)
          (concat (map ?f (sort_key fst files))) =
        filter (\<lambda>w. v_start w = v_start v) (?f (path, text))"
    using d m by (rule filter_concat_key) (auto dest: scan_file_mem)
  also have "\<dots> = filter (\<lambda>w. v_start w = v_start v) (filter ?P (file_spans path ?lines))"
    using scan_file_filter [of path ?lines max_fn allow 0] by (simp add: file_spans_def)
  also have "\<dots> = filter ?P (filter (\<lambda>w. v_start w = v_start v) (file_spans path ?lines))"
    by (simp add: conj_commute)
  also have "filter (\<lambda>w. v_start w = v_start v) (file_spans path ?lines) = [v]"
    using file_spans_distinct_start v by (rule filter_distinct_key)
  finally show "filter (\<lambda>w. v_path w = path \<and> v_start w = v_start v)
              (function_violations files max_fn allow) =
            (if int (v_length v) > max_fn \<and> v_name v \<notin> allow then [v] else [])"
    by (simp add: function_violations_concat)
qed

lemma two_line_split: "splitlines two_line_text = [str ''fn f() {'', str ''}'']"
  by (simp add: two_line_text_def splitlines_def str_def is_linebreak_def)

lemma two_line_spans:
  "file_spans (str ''a.rs'') [str ''fn f() {'', str ''}''] = [(str ''a.rs'', str ''f'', 2, 1, 2)]"
  by (simp add: file_spans_def scan_file.simps [of _ _ _ _ 0] scan_file_past_end
      scan_step_def pat_f close_two)

theorem thresholds_strict_witness:
  "file_violations [(str ''a.rs'', two_line_text)] 2 = [] \<and>
   file_violations [(str ''a.rs'', two_line_text)] 1 = [(str ''a.rs'', 2)] \<and>
   function_violations [(str ''a.rs'', two_line_text)] 2 {} = [] \<and>
   function_violations [(str ''a.rs'', two_line_text)] 1 {} =
     [(str ''a.rs'', str ''f'', 2, 1, 2)] \<and>
   function_violations [(str ''a.rs'', two_line_text)] 1 {str ''f''} = []"
proof -
  let ?p = "str ''a.rs''"
  let ?t = "two_line_text"
  let ?F = "[(?p, ?t)]"
  let ?v = "(?p, str ''f'', 2::nat, 1::nat, 2::nat)"
  have d: "distinct (map fst ?F)" and m: "(?p, ?t) \<in> set ?F" by simp_all
  have v: "?v \<in> set (file_spans ?p (splitlines ?t))"
    by (simp add: two_line_split two_line_spans)
  have all_file: "filter (\<lambda>v. fst v = ?p) (file_violations ?F n) = file_violations ?F n" for n
    by (simp add: file_violations_concat)
  have all_fn: "filter (\<lambda>w. v_path w = ?p \<and> v_start w = v_start ?v) (function_violations ?F n a)
      = function_violations ?F n a" for n a
  proof (rule filter_True, rule ballI)
    fix w assume "w \<in> set (function_violations ?F n a)"
    then have w: "w \<in> set (scan_file ?p [str ''fn f() {'', str ''}''] n a (0, []))"
      by (simp add: function_violations_concat two_line_split)
    then have "w \<in> set (file_spans ?p [str ''fn f() {'', str ''}''])"
      by (subst (asm) scan_file_filter) (simp add: file_spans_def)
    with w show "v_path w = ?p \<and> v_start w = v_start ?v"
      by (simp add: two_line_spans scan_file_mem)
  qed
  note t = thresholds_strict [OF d m]
  note tf = t [THEN conjunct1, unfolded all_file two_line_split]
  note tv = t [THEN conjunct2, THEN bspec, OF v, unfolded all_fn]
  from tf [of 2] have "file_violations ?F 2 = []" by simp
  moreover from tf [of 1] have "file_violations ?F 1 = [(?p, 2)]" by simp
  moreover from tv [of 2 "{}"] have "function_violations ?F 2 {} = []"
    by (simp add: v_simps)
  moreover from tv [of 1 "{}"] have "function_violations ?F 1 {} = [?v]"
    by (simp add: v_simps)
  moreover from tv [of 1 "{str ''f''}"] have "function_violations ?F 1 {str ''f''} = []"
    by (simp add: v_simps)
  ultimately show ?thesis by blast
qed

section \<open>The report and the exit status\<close>

lemma report_item:
  "FunctionViolationItem p s e name n \<in> set (report a allow file_v fn_v ep) \<Longrightarrow>
   (p, name, n, s, e) \<in> set fn_v"
  by (auto simp: report_def dest: in_set_takeD)

lemma main_output_cases:
  "fst (main fs c) = [ErrorRootNotFound (src (parse_args c))] \<or>
   (\<exists>tl. fst (main fs c) =
      report (parse_args c) (set (allow_fn (parse_args c)))
        (file_violations (rglob_rs fs (src (parse_args c))) (max_file_lines (parse_args c)))
        (function_violations (rglob_rs fs (src (parse_args c))) (max_fn_lines (parse_args c))
           (set (allow_fn (parse_args c))))
        (error_pattern_count (rglob_rs fs (src (parse_args c)))) @ tl \<and>
      (\<forall>x \<in> set tl. \<exists>n b. x = ErrorBaselineExceeded n b))"
  by (simp add: main_def Let_def)

lemma main_output:
  assumes "path_exists fs (src a)"
    and "a = parse_args c" and "files = rglob_rs fs (src a)"
    and "file_v = file_violations files (max_file_lines a)"
    and "fn_v = function_violations files (max_fn_lines a) (set (allow_fn a))"
    and "ep_count = error_pattern_count files"
  shows "fst (main fs c) =
           report a (set (allow_fn a)) file_v fn_v ep_count @
           (if file_v = [] \<and> fn_v = [] \<and> (\<exists>b. max_raw_eprintln a = Some b \<and> int ep_count > b)
            then [ErrorBaselineExceeded ep_count (the (max_raw_eprintln a))] else [])"
  using assms by (auto simp: main_def Let_def)

lemma set_report:
  "set (report a allow file_v fn_v ep_count) =
      {Header, FileMaxLines (max_file_lines a),
       FnMaxLines (max_fn_lines a) (sorted_list_of_set allow),
       FileViolationsCount (length file_v), FunctionViolationsCount (length fn_v),
       RawEprintlnCount ep_count}
      \<union> (\<lambda>(p, n). FileViolationItem p n) ` set file_v
      \<union> (\<lambda>(p, name, n, s, e). FunctionViolationItem p s e name n) ` set (take 100 fn_v)"
  by (auto simp: report_def)

lemma report_no_baseline_line:
  "ErrorBaselineExceeded n b \<notin> set (report a allow file_v fn_v ep_count)"
  unfolding set_report by auto

lemma two_line_file_violations:
  "file_violations [(str ''a.rs'', two_line_text)] m = (if 2 > m then [(str ''a.rs'', 2)] else [])"
  by (simp add: file_violations_concat two_line_split)

lemma two_line_function_violations:
  "function_violations [(str ''a.rs'', two_line_text)] m allow =
     (if 2 > m \<and> str ''f'' \<notin> allow then [(str ''a.rs'', str ''f'', 2, 1, 2)] else [])"
  by (simp add: function_violations_concat two_line_split scan_file.simps [of _ _ _ _ 0]
      scan_file_past_end scan_step_def pat_f close_two)

lemma two_line_count: "error_pattern_count [(str ''a.rs'', two_line_text)] = 0"
  by (simp add: error_pattern_count_def two_line_text_def str_def)

lemma eprintln_split: "splitlines (str ''eprintln!('') = [str ''eprintln!('']"
  by (simp add: splitlines_def str_def is_linebreak_def)

lemma eprintln_pat: "PAT_FN (str ''eprintln!('') = None"
  by (simp add: pat_eval)

lemma eprintln_file_violations:
  "file_violations [(str ''a.rs'', str ''eprintln!('')] m = (if 1 > m then [(str ''a.rs'', 1)] else [])"
  by (simp add: file_violations_concat eprintln_split)

lemma eprintln_function_violations:
  "function_violations [(str ''a.rs'', str ''eprintln!('')] m allow = []"
  by (simp add: function_violations_concat eprintln_split scan_file.simps [of _ _ _ _ 0]
      scan_file_past_end scan_step_def eprintln_pat)

lemma eprintln_count: "error_pattern_count [(str ''a.rs'', str ''eprintln!('')] = 1"
  by (simp add: error_pattern_count_def str_def)

lemma f_not_execute_task: "str ''f'' \<noteq> str ''execute_task''"
  by (simp add: str_def)

lemmas example_runs = default_cli_def fs_of_def no_root_fs_def parse_args_def
  two_line_file_violations two_line_function_violations two_line_count
  eprintln_file_violations eprintln_function_violations eprintln_count f_not_execute_task

text \<open>
  Claim C3. The exit status is 2 when the source root does not exist, and then the only
  line printed is the error line and the files play no part; otherwise it is 1 when
  there is a file violation or a function violation, or a baseline is configured and
  the raw count exceeds it, or strict mode is on and the raw count is positive;
  otherwise it is 0.
\<close>

theorem main_exit_status:
  assumes "a = parse_args c" and "files = rglob_rs fs (src a)"
    and "file_v = file_violations files (max_file_lines a)"
    and "fn_v = function_violations files (max_fn_lines a) (set (allow_fn a))"
    and "ep_count = error_pattern_count files"
  shows "snd (main fs c) =
           (if \<not> path_exists fs (src a) then 2
            else if file_v \<noteq> [] \<or> fn_v \<noteq> [] \<or>
                    (\<exists>b. max_raw_eprintln a = Some b \<and> int ep_count > b) \<or>
                    (strict_errors a \<and> ep_count > 0)
                 then 1 else 0) \<and>
         (\<not> path_exists fs (src a) \<longrightarrow> main fs c = ([ErrorRootNotFound (src a)], 2))"
  using assms by (auto simp: main_def Let_def)

theorem main_exit_status_witness:
  "main no_root_fs default_cli = ([ErrorRootNotFound (str ''src'')], 2) \<and>
   snd (main no_root_fs default_cli) = 2 \<and>
   snd (main (fs_of [(str ''a.rs'', two_line_text)]) default_cli) = 0 \<and>
   snd (main (fs_of [(str ''a.rs'', two_line_text)]) (default_cli\<lparr>cli_max_file_lines := Some 1\<rparr>)) = 1 \<and>
   snd (main (fs_of [(str ''a.rs'', two_line_text)]) (default_cli\<lparr>cli_max_fn_lines := Some 1\<rparr>)) = 1 \<and>
   snd (main (fs_of [(str ''a.rs'', str ''eprintln!('')]) default_cli) = 0 \<and>
   snd (main (fs_of [(str ''a.rs'', str ''eprintln!('')])
          (default_cli\<lparr>cli_max_raw_eprintln := Some 0\<rparr>)) = 1 \<and>
   snd (main (fs_of [(str ''a.rs'', str ''eprintln!('')])
          (default_cli\<lparr>cli_max_raw_eprintln := Some 1\<rparr>)) = 0 \<and>
   snd (main (fs_of [(str ''a.rs'', str ''eprintln!('')])
          (default_cli\<lparr>cli_strict_errors := True\<rparr>)) = 1"
proof -
  note t = main_exit_status [OF refl refl refl refl refl, THEN conjunct1]
  have "main no_root_fs default_cli = ([ErrorRootNotFound (str ''src'')], 2)"
    using main_exit_status [OF refl refl refl refl refl, THEN conjunct2, of no_root_fs default_cli]
    by (simp add: example_runs)
  moreover have "snd (main no_root_fs default_cli) = 2"
    using t [of no_root_fs default_cli] by (simp add: example_runs)
  moreover have "snd (main (fs_of [(str ''a.rs'', two_line_text)]) default_cli) = 0"
    using t [of "fs_of [(str ''a.rs'', two_line_text)]" default_cli] by (simp add: example_runs)
  moreover have "snd (main (fs_of [(str ''a.rs'', two_line_text)])
      (default_cli\<lparr>cli_max_file_lines := Some 1\<rparr>)) = 1"
    using t [of "fs_of [(str ''a.rs'', two_line_text)]" "default_cli\<lparr>cli_max_file_lines := Some 1\<rparr>"]
    by (simp add: example_runs)
  moreover have "snd (main (fs_of [(str ''a.rs'', two_line_text)])
      (default_cli\<lparr>cli_max_fn_lines := Some 1\<rparr>)) = 1"
    using t [of "fs_of [(str ''a.rs'', two_line_text)]" "default_cli\<lparr>cli_max_fn_lines := Some 1\<rparr>"]
    by (simp add: example_runs)
  moreover have "snd (main (fs_of [(str ''a.rs'', str ''eprintln!('')]) default_cli) = 0"
    using t [of "fs_of [(str ''a.rs'', str ''eprintln!('')]" default_cli]
    by (simp add: example_runs)
  moreover have "snd (main (fs_of [(str ''a.rs'', str ''eprintln!('')])
          (default_cli\<lparr>cli_max_raw_eprintln := Some 0\<rparr>)) = 1"
    using t [of "fs_of [(str ''a.rs'', str ''eprintln!('')]"
        "default_cli\<lparr>cli_max_raw_eprintln := Some 0\<rparr>"]
    by (simp add: example_runs)
  moreover have "snd (main (fs_of [(str ''a.rs'', str ''eprintln!('')])
          (default_cli\<lparr>cli_max_raw_eprintln := Some 1\<rparr>)) = 0"
    using t [of "fs_of [(str ''a.rs'', str ''eprintln!('')]"
        "default_cli\<lparr>cli_max_raw_eprintln := Some 1\<rparr>"]
    by (simp add: example_runs)
  moreover have "snd (main (fs_of [(str ''a.rs'', str ''eprintln!('')])
          (default_cli\<lparr>cli_strict_errors := True\<rparr>)) = 1"
    using t [of "fs_of [(str ''a.rs'', str ''eprintln!('')]"
        "default_cli\<lparr>cli_strict_errors := True\<rparr>"]
    by (simp add: example_runs)
  ultimately show ?thesis by blast
qed


text \<open>
  Claim C2, as the code has it. On an existing source root every run prints the whole
  report: the header, the two limits, both counts, every file violation, the first 100
  function violations and the raw count. The baseline line is the one diagnostic that
  is not always printed: it is printed exactly when there is no file violation and no
  function violation, a baseline is configured and the raw count exceeds it.
\<close>

theorem main_diagnostics_printed:
  assumes "path_exists fs (src a)"
    and "a = parse_args c" and "files = rglob_rs fs (src a)"
    and "file_v = file_violations files (max_file_lines a)"
    and "fn_v = function_violations files (max_fn_lines a) (set (allow_fn a))"
    and "ep_count = error_pattern_count files"
  shows "fst (main fs c) =
           report a (set (allow_fn a)) file_v fn_v ep_count @
           (if file_v = [] \<and> fn_v = [] \<and> (\<exists>b. max_raw_eprintln a = Some b \<and> int ep_count > b)
            then [ErrorBaselineExceeded ep_count (the (max_raw_eprintln a))] else []) \<and>
         (\<forall>(p, n) \<in> set file_v. FileViolationItem p n \<in> set (fst (main fs c))) \<and>
         (\<forall>(p, name, n, s, e) \<in> set (take 100 fn_v).
            FunctionViolationItem p s e name n \<in> set (fst (main fs c))) \<and>
         FileViolationsCount (length file_v) \<in> set (fst (main fs c)) \<and>
         FunctionViolationsCount (length fn_v) \<in> set (fst (main fs c)) \<and>
         RawEprintlnCount ep_count \<in> set (fst (main fs c)) \<and>
         (ErrorBaselineExceeded n b \<in> set (fst (main fs c)) \<longleftrightarrow>
            file_v = [] \<and> fn_v = [] \<and> max_raw_eprintln a = Some b \<and> n = ep_count \<and>
            int ep_count > b)"
proof -
  note out = main_output [OF assms]
  note r = set_report [of a "set (allow_fn a)" file_v fn_v ep_count]
  note nb = report_no_baseline_line [of n b a "set (allow_fn a)" file_v fn_v ep_count]
  show ?thesis
  proof (intro conjI)
    show "fst (main fs c) =
           report a (set (allow_fn a)) file_v fn_v ep_count @
           (if file_v = [] \<and> fn_v = [] \<and> (\<exists>b. max_raw_eprintln a = Some b \<and> int ep_count > b)
            then [ErrorBaselineExceeded ep_count (the (max_raw_eprintln a))] else [])"
      by (rule out)
    show "\<forall>(p, n) \<in> set file_v. FileViolationItem p n \<in> set (fst (main fs c))"
      unfolding out set_append r by auto
    show "\<forall>(p, name, n, s, e) \<in> set (take 100 fn_v).
            FunctionViolationItem p s e name n \<in> set (fst (main fs c))"
      unfolding out set_append r by force
    show "FileViolationsCount (length file_v) \<in> set (fst (main fs c))"
      unfolding out set_append r by simp
    show "FunctionViolationsCount (length fn_v) \<in> set (fst (main fs c))"
      unfolding out set_append r by simp
    show "RawEprintlnCount ep_count \<in> set (fst (main fs c))"
      unfolding out set_append r by simp
    show "ErrorBaselineExceeded n b \<in> set (fst (main fs c)) \<longleftrightarrow>
            file_v = [] \<and> fn_v = [] \<and> max_raw_eprintln a = Some b \<and> n = ep_count \<and>
            int ep_count > b"
      using nb unfolding out set_append by auto
  qed
qed

theorem main_diagnostics_printed_witness:
  "ErrorBaselineExceeded 1 0 \<in>
     set (fst (main (fs_of [(str ''a.rs'', str ''eprintln!('')])
                 (default_cli\<lparr>cli_max_raw_eprintln := Some 0\<rparr>))) \<and>
   FileViolationItem (str ''a.rs'') 2 \<in>
     set (fst (main (fs_of [(str ''a.rs'', two_line_text)])
                 (default_cli\<lparr>cli_max_file_lines := Some 1, cli_max_fn_lines := Some 1\<rparr>))) \<and>
   FunctionViolationItem (str ''a.rs'') 1 2 (str ''f'') 2 \<in>
     set (fst (main (fs_of [(str ''a.rs'', two_line_text)])
                 (default_cli\<lparr>cli_max_file_lines := Some 1, cli_max_fn_lines := Some 1\<rparr>)))"
proof -
  let ?fs1 = "fs_of [(str ''a.rs'', str ''eprintln!('')]"
  let ?c1 = "default_cli\<lparr>cli_max_raw_eprintln := Some 0\<rparr>"
  let ?fs2 = "fs_of [(str ''a.rs'', two_line_text)]"
  let ?c2 = "default_cli\<lparr>cli_max_file_lines := Some 1, cli_max_fn_lines := Some 1\<rparr>"
  have e1: "path_exists ?fs1 (src (parse_args ?c1))" by (simp add: fs_of_def)
  have e2: "path_exists ?fs2 (src (parse_args ?c2))" by (simp add: fs_of_def)
  note t1 = main_diagnostics_printed [OF e1 refl refl refl refl refl, of 1 0]
  note t2 = main_diagnostics_printed [OF e2 refl refl refl refl refl, of 0 0]
  from t1 have "ErrorBaselineExceeded 1 0 \<in> set (fst (main ?fs1 ?c1))"
    by (simp add: example_runs)
  moreover from t2 have "\<forall>(p, n) \<in> set (file_violations (rglob_rs ?fs2 (src (parse_args ?c2)))
        (max_file_lines (parse_args ?c2))). FileViolationItem p n \<in> set (fst (main ?fs2 ?c2))"
    by blast
  then have "FileViolationItem (str ''a.rs'') 2 \<in> set (fst (main ?fs2 ?c2))"
    by (simp add: example_runs)
  moreover from t2 have "\<forall>(p, name, n, s, e) \<in> set (take 100
        (function_violations (rglob_rs ?fs2 (src (parse_args ?c2))) (max_fn_lines (parse_args ?c2))
           (set (allow_fn (parse_args ?c2))))).
        FunctionViolationItem p s e name n \<in> set (fst (main ?fs2 ?c2))"
    by blast
  then have "FunctionViolationItem (str ''a.rs'') 1 2 (str ''f'') 2 \<in> set (fst (main ?fs2 ?c2))"
    by (simp add: example_runs)
  ultimately show ?thesis by blast
qed

text \<open>
  Claim C2 as stated fails. With the limit of 0 lines for a file and the baseline 0, the
  one-line file \<^verbatim>\<open>eprintln!(\<close> is a file violation and its raw count 1 exceeds the
  baseline, so the baseline diagnostic applies; \<^verbatim>\<open>main\<close> returns 1 at the violations
  and the line \<^verbatim>\<open>ERROR: raw_eprintln_count 1 exceeds baseline 0\<close> is not printed.
\<close>

theorem baseline_line_suppressed_counterexample:
  "file_violations [(str ''a.rs'', str ''eprintln!('')] 0 = [(str ''a.rs'', 1)] \<and>
   max_raw_eprintln (parse_args (default_cli\<lparr>cli_max_file_lines := Some 0,
                                             cli_max_raw_eprintln := Some 0\<rparr>)) = Some 0 \<and>
   error_pattern_count [(str ''a.rs'', str ''eprintln!('')] = 1 \<and>
   ErrorBaselineExceeded 1 0 \<notin>
     set (fst (main (fs_of [(str ''a.rs'', str ''eprintln!('')])
                 (default_cli\<lparr>cli_max_file_lines := Some 0, cli_max_raw_eprintln := Some 0\<rparr>))) \<and>
   snd (main (fs_of [(str ''a.rs'', str ''eprintln!('')])
          (default_cli\<lparr>cli_max_file_lines := Some 0, cli_max_raw_eprintln := Some 0\<rparr>)) = 1"
proof -
  let ?fs = "fs_of [(str ''a.rs'', str ''eprintln!('')]"
  let ?c = "default_cli\<lparr>cli_max_file_lines := Some 0, cli_max_raw_eprintln := Some 0\<rparr>"
  have e: "path_exists ?fs (src (parse_args ?c))" by (simp add: fs_of_def)
  have "fst (main ?fs ?c) =
      report (parse_args ?c) (set (allow_fn (parse_args ?c))) [(str ''a.rs'', 1)] [] 1"
    using main_output [OF e refl refl refl refl refl] by (simp add: example_runs)
  then have "ErrorBaselineExceeded 1 0 \<notin> set (fst (main ?fs ?c))"
    by (simp add: report_no_baseline_line)
  moreover have "snd (main ?fs ?c) = 1"
    by (simp add: main_def Let_def example_runs)
  ultimately show ?thesis by (simp add: example_runs)
qed

section \<open>The built-in exemption\<close>

lemma splitlines_from_lf: "splitlines_from cur (10 # rest) = cur # splitlines_from [] rest"
  by (cases rest) (simp_all add: is_linebreak_def)

lemma splitlines_from_char:
  "\<not> is_linebreak c \<Longrightarrow> rest \<noteq> [] \<Longrightarrow>
   splitlines_from cur (c # rest) = splitlines_from (cur @ [c]) rest"
  by (cases rest) (auto simp: is_linebreak_def)

lemma splitlines_from_prefix:
  "\<forall>c \<in> set s. \<not> is_linebreak c \<Longrightarrow> r \<noteq> [] \<Longrightarrow>
   splitlines_from cur (s @ r) = splitlines_from (cur @ s) r"
  by (induction s arbitrary: cur) (simp_all add: splitlines_from_char)

lemma splitlines_from_lfs:
  "splitlines_from cur (replicate (Suc n) 10 @ rest) = cur # replicate n [] @ splitlines_from [] rest"
  by (induction n arbitrary: cur) (simp_all add: splitlines_from_lf is_linebreak_def)

lemma long_task_split: "splitlines long_task_text = long_task_lines"
proof -
  have "\<forall>c \<in> set (str ''fn execute_task() {''). \<not> is_linebreak c"
    by (simp add: str_def is_linebreak_def)
  then have "splitlines long_task_text =
      splitlines_from (str ''fn execute_task() {'') (replicate (Suc 78) 10 @ str ''}'')"
    unfolding splitlines_def long_task_text_def
    by (subst splitlines_from_prefix) simp_all
  also have "\<dots> = str ''fn execute_task() {'' # replicate 78 [] @ splitlines_from [] (str ''}'')"
    by (rule splitlines_from_lfs)
  also have "splitlines_from [] (str ''}'') = [str ''}'']"
    by (simp add: str_def is_linebreak_def)
  finally show ?thesis by (simp add: long_task_lines_def)
qed

lemma scan_line_empty: "scan_line [] st = st"
  by (simp add: scan_line_def)

lemma long_task_state:
  assumes "k < 80"
  shows "state_after long_task_lines 0 k (False, 0) = (True, if k = 79 then 0 else 1)"
proof (cases "k = 79")
  case True
  have "concat long_task_lines = str ''fn execute_task() {'' @ str ''}''"
    by (simp add: long_task_lines_def)
  moreover have "take (79 + 1 - 0) long_task_lines = long_task_lines"
    by (simp add: long_task_lines_def)
  ultimately show ?thesis using True
    by (simp add: state_after_def) (simp add: str_def)
next
  case False
  with assms have k: "k \<le> 78" by simp
  then have "take (k + 1 - 0) long_task_lines = str ''fn execute_task() {'' # replicate k []"
    by (simp add: long_task_lines_def min_def)
  then have "concat (take (k + 1 - 0) long_task_lines) = str ''fn execute_task() {''"
    by simp
  then show ?thesis using False
    by (simp add: state_after_def) (simp add: str_def)
qed

lemma long_task_close: "close_line long_task_lines 0 (False, 0) = Some 79"
proof -
  have "length long_task_lines = 80" by (simp add: long_task_lines_def)
  then show ?thesis
    by (simp add: close_line_Some_iff long_task_state closed_def)
qed

lemma long_task_pat: "PAT_FN (long_task_lines ! 0) = Some (str ''execute_task'')"
  by (simp add: long_task_lines_def pat_eval)

lemma long_task_scan:
  "scan_file path long_task_lines 50 allow (0, []) =
     (if str ''execute_task'' \<notin> allow then [(path, str ''execute_task'', 80, 1, 80)] else [])"
proof -
  have l: "length long_task_lines = 80" by (simp add: long_task_lines_def)
  have "scan_step path long_task_lines 50 allow (0, []) =
      (80, if str ''execute_task'' \<notin> allow then [(path, str ''execute_task'', 80, 1, 80)] else [])"
    by (simp add: scan_step_def long_task_pat long_task_close)
  then show ?thesis
    by (simp add: scan_file.simps [of _ _ _ _ 0] scan_file_past_end l)
qed


lemma two_fn_split:
  "splitlines two_fn_text = [str ''fn execute_task() {'', str ''}'', str ''fn g() {'', str ''}'']"
  by (simp add: two_fn_text_def splitlines_def str_def is_linebreak_def)

lemma execute_task_pat: "PAT_FN (str ''fn execute_task() {'') = Some (str ''execute_task'')"
  by (simp add: pat_eval)

lemma g_open_pat: "PAT_FN (str ''fn g() {'') = Some (str ''g'')"
  by (simp add: pat_eval)

lemma two_fn_close_0:
  "close_line [str ''fn execute_task() {'', str ''}'', str ''fn g() {'', str ''}''] 0 (False, 0)
     = Some 1"
proof -
  have "scan_line (str ''fn execute_task() {'') (False, 0) = (True, 1)"
    by (simp add: scan_line_def str_def)
  then show ?thesis
    by (simp add: close_line.simps [of _ 0] close_line.simps [of _ "Suc 0"] scan_close)
qed

lemma close_line_skip:
  "j < length lines \<Longrightarrow> \<not> closed (scan_line (lines ! j) st) \<Longrightarrow>
   close_line lines j st = close_line lines (Suc j) (scan_line (lines ! j) st)"
  by (auto simp: close_line.simps [of lines j] closed_def Let_def)

lemma two_fn_close_2:
  "close_line [str ''fn execute_task() {'', str ''}'', str ''fn g() {'', str ''}''] 2 (False, 0)
     = Some 3"
proof -
  let ?L = "[str ''fn execute_task() {'', str ''}'', str ''fn g() {'', str ''}'']"
  have h: "scan_line (str ''fn g() {'') (False, 0) = (True, 1)"
    by (simp add: scan_line_def str_def)
  have "close_line ?L 2 (False, 0) = close_line ?L (Suc 2) (True, 1)"
    using close_line_skip [of 2 ?L "(False, 0)"] by (simp add: closed_def h)
  also have "\<dots> = Some (Suc 2)"
    using close_line_same_line [of "Suc 2" ?L "(True, 1)"] by (simp add: closed_def scan_close)
  finally show ?thesis by simp
qed

lemma g_not_execute_task: "str ''g'' \<noteq> str ''execute_task''"
  by (simp add: str_def)

lemma two_fn_function_violations:
  "function_violations [(str ''a.rs'', two_fn_text)] 1 {str ''execute_task''} =
     [(str ''a.rs'', str ''g'', 2, 3, 4)]"
proof -
  let ?L = "[str ''fn execute_task() {'', str ''}'', str ''fn g() {'', str ''}'']"
  have s0: "scan_step (str ''a.rs'') ?L 1 {str ''execute_task''} (0, []) = (2, [])"
    by (simp add: scan_step_def execute_task_pat two_fn_close_0)
  have s2: "scan_step (str ''a.rs'') ?L 1 {str ''execute_task''} (2, []) =
      (4, [(str ''a.rs'', str ''g'', 2, 3, 4)])"
    by (simp add: scan_step_def g_open_pat two_fn_close_2 g_not_execute_task)
  have "scan_file (str ''a.rs'') ?L 1 {str ''execute_task''} (0, []) =
      [(str ''a.rs'', str ''g'', 2, 3, 4)]"
    by (simp add: scan_file.simps [of _ _ _ _ 0] scan_file.simps [of _ _ _ _ 2]
        scan_file_past_end s0 s2)
  then show ?thesis
    by (simp add: function_violations_concat two_fn_split)
qed

lemma two_fn_file_violations: "file_violations [(str ''a.rs'', two_fn_text)] 400 = []"
  by (simp add: file_violations_concat two_fn_split)

text \<open>
  Claim C8. Whatever the command line is, the names given with \<^verbatim>\<open>--allow-fn\<close> are
  added to the default list, so \<^verbatim>\<open>execute_task\<close> is always exempt: no function
  violation computed with the parsed list, for any files and any limit, and no function
  violation line printed by \<^verbatim>\<open>main\<close> names it. The witness runs the scan on a file
  whose function \<^verbatim>\<open>execute_task\<close> spans 80 lines with the default limit of 50: there
  is no violation, and with no name exempt there would be one.
\<close>

theorem execute_task_always_exempt:
  "str ''execute_task'' \<in> set (allow_fn (parse_args c)) \<and>
   (\<forall>v \<in> set (function_violations files max_lines (set (allow_fn (parse_args c)))).
      v_name v \<noteq> str ''execute_task'') \<and>
   (FunctionViolationItem p s e name n \<in> set (fst (main fs c)) \<longrightarrow>
      name \<noteq> str ''execute_task'')"
proof (intro conjI ballI impI)
  show ex: "str ''execute_task'' \<in> set (allow_fn (parse_args c))"
    by (simp add: parse_args_def)
  show "v_name v \<noteq> str ''execute_task''"
    if "v \<in> set (function_violations files max_lines (set (allow_fn (parse_args c))))" for v
  proof -
    from that obtain path t where
      "v \<in> set (scan_file path (splitlines t) max_lines (set (allow_fn (parse_args c))) (0, []))"
      by (auto simp: function_violations_mem)
    from scan_file_mem [OF this] have "v_name v \<notin> set (allow_fn (parse_args c))" by simp
    with ex show ?thesis by auto
  qed
  assume i: "FunctionViolationItem p s e name n \<in> set (fst (main fs c))"
  let ?fn_v = "function_violations (rglob_rs fs (src (parse_args c))) (max_fn_lines (parse_args c))
           (set (allow_fn (parse_args c)))"
  from i main_output_cases [of fs c] have "(p, name, n, s, e) \<in> set ?fn_v"
    by (auto dest: report_item)
  then obtain path t where
    "(p, name, n, s, e) \<in> set (scan_file path (splitlines t) (max_fn_lines (parse_args c))
        (set (allow_fn (parse_args c))) (0, []))"
    by (auto simp: function_violations_mem)
  from scan_file_mem [OF this] have "name \<notin> set (allow_fn (parse_args c))"
    by (simp add: v_simps)
  with ex show "name \<noteq> str ''execute_task''" by auto
qed

theorem execute_task_always_exempt_witness:
  "str ''execute_task'' \<in> set (allow_fn (parse_args (default_cli\<lparr>cli_allow_fn := [str ''g'']\<rparr>))) \<and>
   function_violations [(str ''a.rs'', long_task_text)] 50
     (set (allow_fn (parse_args default_cli))) = [] \<and>
   function_violations [(str ''a.rs'', long_task_text)] 50 {} =
     [(str ''a.rs'', str ''execute_task'', 80, 1, 80)] \<and>
   function_violations [(str ''a.rs'', two_fn_text)] 1
     (set (allow_fn (parse_args (default_cli\<lparr>cli_max_fn_lines := Some 1\<rparr>)))) =
     [(str ''a.rs'', str ''g'', 2, 3, 4)] \<and>
   v_name (str ''a.rs'', str ''g'', 2::nat, 3::nat, 4::nat) \<noteq> str ''execute_task'' \<and>
   FunctionViolationItem (str ''a.rs'') 3 4 (str ''g'') 2 \<in>
     set (fst (main (fs_of [(str ''a.rs'', two_fn_text)])
                 (default_cli\<lparr>cli_max_fn_lines := Some 1\<rparr>))) \<and>
   str ''g'' \<noteq> str ''execute_task''"
proof -
  let ?c = "default_cli\<lparr>cli_max_fn_lines := Some 1\<rparr>"
  let ?F = "[(str ''a.rs'', two_fn_text)]"
  let ?v = "(str ''a.rs'', str ''g'', 2::nat, 3::nat, 4::nat)"
  have a: "set (allow_fn (parse_args ?c)) = {str ''execute_task''}"
    "set (allow_fn (parse_args default_cli)) = {str ''execute_task''}"
    by (simp_all add: parse_args_def default_cli_def)
  have fv: "function_violations ?F 1 (set (allow_fn (parse_args ?c))) = [?v]"
    by (simp add: a two_fn_function_violations)
  note t = execute_task_always_exempt
  from t [of "default_cli\<lparr>cli_allow_fn := [str ''g'']\<rparr>"]
  have c1: "str ''execute_task'' \<in> set (allow_fn (parse_args (default_cli\<lparr>cli_allow_fn := [str ''g'']\<rparr>)))"
    by (rule conjunct1)
  from t [of ?c ?F 1] have "\<forall>v \<in> set (function_violations ?F 1 (set (allow_fn (parse_args ?c)))).
      v_name v \<noteq> str ''execute_task''"
    by blast
  with fv have c5: "v_name ?v \<noteq> str ''execute_task''" by simp
  have c2: "function_violations [(str ''a.rs'', long_task_text)] 50
     (set (allow_fn (parse_args default_cli))) = []"
    by (simp add: a function_violations_concat long_task_split long_task_scan)
  have c3: "function_violations [(str ''a.rs'', long_task_text)] 50 {} =
     [(str ''a.rs'', str ''execute_task'', 80, 1, 80)]"
    by (simp add: function_violations_concat long_task_split long_task_scan)
  have e: "path_exists (fs_of ?F) (src (parse_args ?c))" by (simp add: fs_of_def)
  have "fst (main (fs_of ?F) ?c) =
      report (parse_args ?c) (set (allow_fn (parse_args ?c))) [] [?v]
        (error_pattern_count ?F) @ []"
    using main_output [OF e refl refl refl refl refl] fv
    by (simp add: fs_of_def) (simp add: parse_args_def default_cli_def two_fn_file_violations)
  then have c6: "FunctionViolationItem (str ''a.rs'') 3 4 (str ''g'') 2 \<in>
      set (fst (main (fs_of ?F) ?c))"
    by (simp add: set_report)
  from t [of ?c ?F 1 "str ''a.rs''" 3 4 "str ''g''" 2 "fs_of ?F"] c6
  have c7: "str ''g'' \<noteq> str ''execute_task''" by blast
  from c1 c2 c3 fv c5 c6 c7 show ?thesis by blast
qed

end
